theory Spec2Isabelle
  imports Complex_Main
begin

section \<open>JavaScript values\<close>

text \<open>
  The stream is written in JavaScript. The values it inspects are modelled by a datatype
  of their own. A JavaScript number is a finite rational (every finite double is one, and
  the code only compares numbers and takes minima and maxima, which are exact), or one of
  the three non-finite numbers. Counters and sizes computed by the code itself
  (loop indices, string lengths, the callback id) are natural numbers.
\<close>

datatype jsnum = Fin rat | NaN | PosInf | NegInf

datatype jsval =
    JUndefined
  | JNull
  | JBool bool
  | JNum jsnum
  | JStr string
  | JFun
  | JArr "jsval list"
  | JObj "(string \<times> jsval) list"

datatype jstype = TUndefined | TObject | TBoolean | TNumber | TString | TFunction

text \<open>The operator \<^verbatim>\<open>typeof\<close>; \<^verbatim>\<open>typeof null\<close> is \<^verbatim>\<open>'object'\<close>.\<close>

fun typeof :: "jsval \<Rightarrow> jstype" where
  "typeof JUndefined = TUndefined"
| "typeof JNull = TObject"
| "typeof (JBool _) = TBoolean"
| "typeof (JNum _) = TNumber"
| "typeof (JStr _) = TString"
| "typeof JFun = TFunction"
| "typeof (JArr _) = TObject"
| "typeof (JObj _) = TObject"

text \<open>Truthiness, as used by \<^verbatim>\<open>!x\<close>, \<^verbatim>\<open>x ? a : b\<close> and \<^verbatim>\<open>if (x)\<close>.\<close>

fun truthy :: "jsval \<Rightarrow> bool" where
  "truthy JUndefined = False"
| "truthy JNull = False"
| "truthy (JBool b) = b"
| "truthy (JNum (Fin x)) = (x \<noteq> 0)"
| "truthy (JNum NaN) = False"
| "truthy (JNum _) = True"
| "truthy (JStr s) = (s \<noteq> [])"
| "truthy _ = True"

text \<open>
  Property read \<^verbatim>\<open>o.k\<close> and \<^verbatim>\<open>hasOwnProperty.call(o, k)\<close> on a value that is not
  \<^verbatim>\<open>null\<close> or \<^verbatim>\<open>undefined\<close> (on those a property read throws; the callers below
  write that case out). Objects carry their own properties only; none of the names read by
  the code is a property of an array or of a primitive.
\<close>

fun getprop :: "jsval \<Rightarrow> string \<Rightarrow> jsval" where
  "getprop (JObj ps) k = (case map_of ps k of Some v \<Rightarrow> v | None \<Rightarrow> JUndefined)"
| "getprop _ k = JUndefined"

fun hasOwnProperty :: "jsval \<Rightarrow> string \<Rightarrow> bool" where
  "hasOwnProperty (JObj ps) k = (map_of ps k \<noteq> None)"
| "hasOwnProperty _ k = False"

text \<open>Comparison of numbers: every comparison with \<^verbatim>\<open>NaN\<close> is false.\<close>

fun num_less :: "jsnum \<Rightarrow> jsnum \<Rightarrow> bool" where
  "num_less NaN _ = False"
| "num_less _ NaN = False"
| "num_less (Fin a) (Fin b) = (a < b)"
| "num_less (Fin _) PosInf = True"
| "num_less (Fin _) NegInf = False"
| "num_less PosInf _ = False"
| "num_less NegInf NegInf = False"
| "num_less NegInf _ = True"

definition num_le :: "jsnum \<Rightarrow> jsnum \<Rightarrow> bool" where
  "num_le a b = (a \<noteq> NaN \<and> b \<noteq> NaN \<and> (a = b \<or> num_less a b))"

definition Math_max :: "jsnum \<Rightarrow> jsnum \<Rightarrow> jsnum" where
  "Math_max a b = (if a = NaN \<or> b = NaN then NaN else if num_less a b then b else a)"

definition Math_min :: "jsnum \<Rightarrow> jsnum \<Rightarrow> jsnum" where
  "Math_min a b = (if a = NaN \<or> b = NaN then NaN else if num_less b a then b else a)"

definition js_of_nat :: "nat \<Rightarrow> jsnum" where
  "js_of_nat n = Fin (of_nat n)"

section \<open>The stream object\<close>

record logEvent =
  message :: string
  timestamp :: jsnum

datatype error = Error (name: string) (retryable: bool)

datatype exn = Throw string | TypeError

datatype interval = NextTick | Delay jsnum

text \<open>
  A sequence token handed out by CloudWatch Logs. A stream that has never been written to
  has no \<^verbatim>\<open>uploadSequenceToken\<close>: the value stored is \<^verbatim>\<open>undefined\<close>, which is not
  \<^verbatim>\<open>null\<close>. The field \<^verbatim>\<open>sequenceToken\<close> is a \<open>token option\<close>, \<open>None\<close> for \<^verbatim>\<open>null\<close>.
\<close>

datatype token = NoToken | Token string

text \<open>
  The argument of the callback \<^verbatim>\<open>next\<close> that \<^verbatim>\<open>onError\<close> receives: nothing (or a
  falsy value), an \<^verbatim>\<open>Error\<close>, or an array of log events.
\<close>

datatype next_arg = NoArg | ErrArg error | EventsArg "logEvent list"

text \<open>
  What surrounds the object: the callbacks it has registered and that have not run yet
  (a scheduled \<^verbatim>\<open>_sendLogs\<close>, the callback of \<^verbatim>\<open>_getSequenceToken\<close>, the callback of
  \<^verbatim>\<open>_putLogEvents\<close>, which closes over \<^verbatim>\<open>apiParams\<close>), the requests it has made on the
  CloudWatch Logs client, and the events it has emitted.
\<close>

datatype callback = Timer | TokenCb | PutCb token "logEvent list"

datatype request = DescribeLogStreams | PutLogEvents token "logEvent list"

datatype notification = ErrorEvent error | PutLogEventsEvent "logEvent list"

record cwlogs =
  logGroupName :: string
  logStreamName :: string
  writeInterval :: interval
  retryableMax :: jsnum
  retryableDelay :: interval
  maxBatchCount :: jsnum
  maxBatchSize :: jsnum
  filterWrite :: "jsval \<Rightarrow> bool"
  onError :: "error \<Rightarrow> logEvent list option \<Rightarrow> next_arg list"
  getMessageSize :: "string \<Rightarrow> nat"
  onErrorNextCbId :: nat
  sequenceToken :: "token option"
  writeQueued :: bool
  queuedLogs :: "logEvent list"
  pending :: "callback list"
  onErrorCalls :: "(error \<times> logEvent list option \<times> nat) list"
  requests :: "request list"
  emitted :: "notification list"

section \<open>The batch planner\<close>

text \<open>
  \<^verbatim>\<open>nextLogBatchSize\<close>: the loop over the queue, with its three variables. The test
  \<^verbatim>\<open>sizeEstimate > this.maxBatchSize || batchCount >= this.maxBatchCount\<close> breaks the loop.
\<close>

function nextLogBatchSize_loop :: "cwlogs \<Rightarrow> logEvent list \<Rightarrow> nat \<Rightarrow> nat \<Rightarrow> nat \<Rightarrow> nat" where
  "nextLogBatchSize_loop s q i batchCount sizeEstimate =
     (if i < length q then
        (let sizeEstimate' = sizeEstimate + (26 + getMessageSize s (message (q ! i)))
         in if num_less (maxBatchSize s) (js_of_nat sizeEstimate')
               \<or> num_le (maxBatchCount s) (js_of_nat batchCount)
            then batchCount
            else nextLogBatchSize_loop s q (i + 1) (i + 1) sizeEstimate')
      else batchCount)"
  by pat_completeness auto
termination
  by (relation "measure (\<lambda>(s, q, i, b, e). length q - i)") auto

definition nextLogBatchSize :: "cwlogs \<Rightarrow> logEvent list \<Rightarrow> nat" where
  "nextLogBatchSize s q = nextLogBatchSize_loop s q 0 1 0"

section \<open>Construction\<close>

text \<open>
  \<^verbatim>\<open>isFiniteNumber\<close> and \<^verbatim>\<open>isInterval\<close>, the two helpers at the end of the file.
\<close>

fun isFiniteNumber :: "jsval \<Rightarrow> bool" where
  "isFiniteNumber (JNum (Fin _)) = True"
| "isFiniteNumber _ = False"

fun num_of :: "jsval \<Rightarrow> jsnum" where
  "num_of (JNum x) = x"
| "num_of _ = NaN"

definition isInterval :: "jsval \<Rightarrow> bool" where
  "isInterval val = (val = JStr ''nextTick'' \<or> isFiniteNumber val \<and> num_le (Fin 0) (num_of val))"

text \<open>
  \<^verbatim>\<open>validateOptions\<close>: the checks in the order of the source; the first that fails throws
  an \<^verbatim>\<open>Error\<close> with its message. Every numeric comparison is guarded by
  \<^verbatim>\<open>isFiniteNumber\<close>, so \<open>num_of\<close> is only read on numbers.
\<close>

definition validateOptions :: "jsval \<Rightarrow> exn + unit" where
  \<open>validateOptions options =
     (if \<not> truthy options \<or> typeof options \<noteq> TObject then
        Inl (Throw ''options must be an object'')
      else if typeof (getprop options ''logGroupName'') \<noteq> TString then
        Inl (Throw ''logGroupName option must be a string'')
      else if typeof (getprop options ''logStreamName'') \<noteq> TString then
        Inl (Throw ''logStreamName option must be a string'')
      else if hasOwnProperty options ''objectMode''
              \<and> typeof (getprop options ''objectMode'') \<noteq> TBoolean then
        Inl (Throw ''objectMode option must be a boolean, if specified'')
      else if hasOwnProperty options ''writeInterval''
              \<and> \<not> isInterval (getprop options ''writeInterval'') then
        Inl (Throw ''writeInterval option must be a positive number or "nextTick", if specified'')
      else if hasOwnProperty options ''retryableMax''
              \<and> (\<not> isFiniteNumber (getprop options ''retryableMax'')
                   \<or> num_less (num_of (getprop options ''retryableMax'')) (Fin 1)) then
        Inl (Throw ''retryableMax option must be a non-zero positive number, if specified'')
      else if hasOwnProperty options ''retryableDelay''
              \<and> \<not> isInterval (getprop options ''retryableDelay'') then
        Inl (Throw ''retryableDelay option must be a positive number or "nextTick", if specified'')
      else if hasOwnProperty options ''maxBatchCount''
              \<and> (\<not> isFiniteNumber (getprop options ''maxBatchCount'')
                   \<or> num_less (num_of (getprop options ''maxBatchCount'')) (Fin 1)
                   \<or> num_less (Fin 10000) (num_of (getprop options ''maxBatchCount''))) then
        Inl (Throw ''maxBatchCount option must be a positive number from 1 to 10000, if specified'')
      else if hasOwnProperty options ''maxBatchSize''
              \<and> (\<not> isFiniteNumber (getprop options ''maxBatchSize'')
                   \<or> num_less (num_of (getprop options ''maxBatchSize'')) (Fin 256)
                   \<or> num_less (Fin 1048576) (num_of (getprop options ''maxBatchSize''))) then
        Inl (Throw ''maxBatchSize option must be a positive number from 256 to 1048576, if specified'')
      else if hasOwnProperty options ''onError''
              \<and> typeof (getprop options ''onError'') \<noteq> TFunction then
        Inl (Throw ''onError option must be a function, if specified'')
      else if hasOwnProperty options ''filterWrite''
              \<and> typeof (getprop options ''filterWrite'') \<noteq> TFunction then
        Inl (Throw ''filterWrite option must be a function, if specified'')
      else Inr ())\<close>

text \<open>
  The methods of the prototype that an option or a subclass may replace:
  \<^verbatim>\<open>onError\<close> (it calls \<^verbatim>\<open>next(err)\<close>), \<^verbatim>\<open>filterWrite\<close> (\<^verbatim>\<open>rec != null\<close>),
  \<^verbatim>\<open>getMessageSize\<close> (\<^verbatim>\<open>message.length\<close>), and \<^verbatim>\<open>CWLogsWritable._falseFilterWrite\<close>.
  A hook is modelled by the arguments of the calls of \<^verbatim>\<open>next\<close> that it makes before it
  returns, in order; the calls it makes later are events of the run (see \<open>step\<close>).
\<close>

definition onError_default :: "error \<Rightarrow> logEvent list option \<Rightarrow> next_arg list" where
  "onError_default err logEvents = [ErrArg err]"

definition filterWrite_default :: "jsval \<Rightarrow> bool" where
  "filterWrite_default r = (r \<noteq> JNull \<and> r \<noteq> JUndefined)"

definition getMessageSize_default :: "string \<Rightarrow> nat" where
  "getMessageSize_default msg = length msg"

definition falseFilterWrite :: "jsval \<Rightarrow> bool" where
  "falseFilterWrite r = False"

text \<open>
  The constructor. A function stored in the options is opaque in \<open>jsval\<close>; what the
  functions under \<^verbatim>\<open>options.filterWrite\<close> and \<^verbatim>\<open>options.onError\<close> do is given by the
  first two arguments, which are read only when the option is set. The CloudWatch Logs
  client made by \<^verbatim>\<open>createService\<close> is the environment of the object, not a field.
\<close>

definition CWLogsWritable ::
  "(jsval \<Rightarrow> bool) \<Rightarrow> (error \<Rightarrow> logEvent list option \<Rightarrow> next_arg list) \<Rightarrow> jsval \<Rightarrow> exn + cwlogs" where
  "CWLogsWritable optFilterWrite optOnError options =
     (case validateOptions options of
        Inl e \<Rightarrow> Inl e
      | Inr _ \<Rightarrow> Inr \<lparr>
          logGroupName = (case getprop options ''logGroupName'' of JStr g \<Rightarrow> g | _ \<Rightarrow> []),
          logStreamName = (case getprop options ''logStreamName'' of JStr g \<Rightarrow> g | _ \<Rightarrow> []),
          writeInterval =
            (if typeof (getprop options ''writeInterval'') = TNumber
             then Delay (num_of (getprop options ''writeInterval''))
             else NextTick),
          retryableMax =
            (if typeof (getprop options ''retryableMax'') = TNumber
             then Math_max (Fin 0) (num_of (getprop options ''retryableMax''))
             else Fin 100),
          retryableDelay =
            (if getprop options ''retryableDelay'' = JStr ''nextTick'' then NextTick
             else if typeof (getprop options ''retryableDelay'') = TNumber
             then Delay (num_of (getprop options ''retryableDelay''))
             else Delay (Fin 150)),
          maxBatchCount =
            (if typeof (getprop options ''maxBatchCount'') = TNumber
             then Math_min (Fin 10000) (Math_max (Fin 1) (num_of (getprop options ''maxBatchCount'')))
             else Fin 10000),
          maxBatchSize =
            (if typeof (getprop options ''maxBatchSize'') = TNumber
             then Math_min (Fin 1048576) (Math_max (Fin 1024) (num_of (getprop options ''maxBatchSize'')))
             else Fin 1048576),
          filterWrite =
            (if truthy (getprop options ''filterWrite'') then optFilterWrite else filterWrite_default),
          onError =
            (if truthy (getprop options ''onError'') then optOnError else onError_default),
          getMessageSize = getMessageSize_default,
          onErrorNextCbId = 1,
          sequenceToken = None,
          writeQueued = False,
          queuedLogs = [],
          pending = [],
          onErrorCalls = [],
          requests = [],
          emitted = [] \<rparr>)"

section \<open>Ingestion\<close>

text \<open>
  \<^verbatim>\<open>JSON.stringify\<close>, \<^verbatim>\<open>new Date(v).getTime()\<close> belong to the runtime, not to this
  repository: they are parameters. \<^verbatim>\<open>Date.now()\<close> is the argument \<open>now\<close>.
\<close>

record builtins =
  JSON_stringify :: "jsval \<Rightarrow> string"
  Date_getTime :: "jsval \<Rightarrow> jsnum"

text \<open>
  \<^verbatim>\<open>createLogEvent\<close>. For \<^verbatim>\<open>null\<close> the test \<^verbatim>\<open>typeof rec === 'object'\<close> holds and
  reading \<^verbatim>\<open>rec.time\<close> throws a \<^verbatim>\<open>TypeError\<close>.
\<close>

definition createLogEvent :: "builtins \<Rightarrow> jsnum \<Rightarrow> jsval \<Rightarrow> exn + logEvent" where
  "createLogEvent bi now r =
     (if r = JNull then Inl TypeError
      else Inr \<lparr>
        message = (case r of JStr s \<Rightarrow> s | _ \<Rightarrow> JSON_stringify bi r),
        timestamp =
          (if typeof r = TObject \<and> truthy (getprop r ''time'')
           then Date_getTime bi (getprop r ''time'')
           else now) \<rparr>)"

definition clearQueue :: "cwlogs \<Rightarrow> logEvent list \<times> cwlogs" where
  "clearQueue s = (queuedLogs s, s\<lparr>queuedLogs := []\<rparr>)"

definition getQueueSize :: "cwlogs \<Rightarrow> nat" where
  "getQueueSize s = length (queuedLogs s)"

text \<open>
  \<^verbatim>\<open>_scheduleSendLogs\<close> registers \<^verbatim>\<open>_sendLogs\<close> with \<^verbatim>\<open>process.nextTick\<close> or
  \<^verbatim>\<open>setTimeout\<close>; the delay itself is not modelled, only that the call is pending.
\<close>

definition scheduleSendLogs :: "cwlogs \<Rightarrow> cwlogs" where
  "scheduleSendLogs s = s\<lparr>pending := pending s @ [Timer]\<rparr>"

text \<open>
  \<^verbatim>\<open>_write\<close> (here \<open>write_impl\<close>: \<^verbatim>\<open>write\<close> is a keyword). An exception of \<^verbatim>\<open>createLogEvent\<close> leaves before the push.
\<close>

definition write_impl :: "builtins \<Rightarrow> jsnum \<Rightarrow> jsval \<Rightarrow> cwlogs \<Rightarrow> exn + cwlogs" where
  "write_impl bi now r s =
     (if filterWrite s r then
        (case createLogEvent bi now r of
           Inl x \<Rightarrow> Inl x
         | Inr ev \<Rightarrow>
             (let s1 = s\<lparr>queuedLogs := queuedLogs s @ [ev]\<rparr>
              in Inr (if \<not> writeQueued s1 then scheduleSendLogs (s1\<lparr>writeQueued := True\<rparr>) else s1)))
      else Inr s)"

section \<open>Delivery\<close>

text \<open>
  \<^verbatim>\<open>_getSequenceToken\<close> begins with a \<^verbatim>\<open>describeLogStreams\<close> request and ends by calling
  its callback with an error or with a token. The creation of a missing group or stream in
  between is not modelled: the answer that the callback receives is part of the event
  \<open>TokenDone\<close> below.
\<close>

definition getSequenceToken :: "cwlogs \<Rightarrow> cwlogs" where
  "getSequenceToken s =
     s\<lparr>requests := requests s @ [DescribeLogStreams], pending := pending s @ [TokenCb]\<rparr>"

text \<open>
  \<^verbatim>\<open>_putLogEvents\<close> makes its first request at once; the callback of the request is
  pending. \<open>attemptPut\<close> is the inner function of that name, run on the answers of the
  service to the successive requests (\<open>Inl\<close> an error, \<open>Inr\<close> the next sequence token):
  it returns what \<^verbatim>\<open>cb\<close> is called with and the number of requests made, or \<open>None\<close>
  while an answer is outstanding. The wait before a new attempt is not modelled.
\<close>

definition putLogEvents :: "token \<Rightarrow> logEvent list \<Rightarrow> cwlogs \<Rightarrow> cwlogs" where
  "putLogEvents tok logEvents s =
     s\<lparr>requests := requests s @ [PutLogEvents tok logEvents],
       pending := pending s @ [PutCb tok logEvents]\<rparr>"

fun attemptPut :: "jsnum \<Rightarrow> nat \<Rightarrow> (error + token) list \<Rightarrow> ((error + token) \<times> nat) option" where
  "attemptPut rmax retries [] = None"
| "attemptPut rmax retries (Inr tok # rs) = Some (Inr tok, 1)"
| "attemptPut rmax retries (Inl err # rs) =
     (if retryable err \<and> num_less (js_of_nat retries) rmax
      then map_option (\<lambda>(r, n). (r, n + 1)) (attemptPut rmax (retries + 1) rs)
      else Some (Inl err, 1))"

text \<open>
  \<^verbatim>\<open>_sendLogs\<close>, up to the call of \<^verbatim>\<open>_getSequenceToken\<close> or \<^verbatim>\<open>_putLogEvents\<close>.
  \<^verbatim>\<open>splice(0, batchCount)\<close> removes and returns the first \<open>batchCount\<close> elements.
\<close>

definition sendLogs :: "cwlogs \<Rightarrow> cwlogs" where
  "sendLogs s =
     (case sequenceToken s of
        None \<Rightarrow> getSequenceToken s
      | Some tok \<Rightarrow>
          if queuedLogs s = [] then s\<lparr>writeQueued := False\<rparr>
          else
            (let batchCount = nextLogBatchSize s (queuedLogs s)
             in if batchCount = length (queuedLogs s)
                then putLogEvents tok (queuedLogs s) (s\<lparr>queuedLogs := []\<rparr>)
                else putLogEvents tok (take batchCount (queuedLogs s))
                       (s\<lparr>queuedLogs := drop batchCount (queuedLogs s)\<rparr>)))"

text \<open>
  \<^verbatim>\<open>_handleError\<close> and \<^verbatim>\<open>_nextAfterError\<close>. The \<^verbatim>\<open>'error'\<close> event is assumed to have
  a listener (without one, \<^verbatim>\<open>emit\<close> throws).
\<close>

definition handleError :: "error \<Rightarrow> cwlogs \<Rightarrow> cwlogs" where
  "handleError err s =
     (let s1 = s\<lparr>emitted := emitted s @ [ErrorEvent err]\<rparr>;
          s2 = snd (clearQueue s1)
      in s2\<lparr>filterWrite := falseFilterWrite\<rparr>)"

definition nextAfterError :: "nat \<Rightarrow> next_arg \<Rightarrow> cwlogs \<Rightarrow> cwlogs" where
  "nextAfterError cbId errOrLogEvents s =
     (if onErrorNextCbId s \<noteq> cbId then s
      else
        (let s1 = s\<lparr>onErrorNextCbId := onErrorNextCbId s + 1, sequenceToken := None\<rparr>
         in case errOrLogEvents of
              ErrArg err \<Rightarrow> handleError err s1
            | NoArg \<Rightarrow> scheduleSendLogs s1
            | EventsArg logEvents \<Rightarrow>
                scheduleSendLogs
                  (if queuedLogs s1 \<noteq> [] then s1\<lparr>queuedLogs := logEvents @ queuedLogs s1\<rparr>
                   else s1\<lparr>queuedLogs := logEvents\<rparr>)))"

text \<open>
  Both error branches of \<^verbatim>\<open>_sendLogs\<close> increment \<^verbatim>\<open>_onErrorNextCbId\<close> and call
  \<^verbatim>\<open>onError\<close> with \<^verbatim>\<open>_nextAfterError\<close> bound to the new id. The call is recorded with
  its arguments; the calls of \<^verbatim>\<open>next\<close> made by the hook before it returns run in order.
\<close>

definition callOnError :: "error \<Rightarrow> logEvent list option \<Rightarrow> cwlogs \<Rightarrow> cwlogs" where
  "callOnError err logEvents s =
     (let s1 = s\<lparr>onErrorNextCbId := onErrorNextCbId s + 1\<rparr>;
          cbId = onErrorNextCbId s1;
          s2 = s1\<lparr>onErrorCalls := onErrorCalls s1 @ [(err, logEvents, cbId)]\<rparr>
      in foldl (\<lambda>t a. nextAfterError cbId a t) s2 (onError s2 err logEvents))"

text \<open>The two callbacks that \<^verbatim>\<open>_sendLogs\<close> passes on.\<close>

definition sendLogs_tokenCb :: "error + token \<Rightarrow> cwlogs \<Rightarrow> cwlogs" where
  "sendLogs_tokenCb res s =
     (case res of
        Inl err \<Rightarrow> callOnError err None s
      | Inr tok \<Rightarrow> sendLogs (s\<lparr>sequenceToken := Some tok\<rparr>))"

definition sendLogs_putCb :: "logEvent list \<Rightarrow> error + token \<Rightarrow> cwlogs \<Rightarrow> cwlogs" where
  "sendLogs_putCb logEvents res s =
     (case res of
        Inl err \<Rightarrow> callOnError err (Some logEvents) s
      | Inr tok \<Rightarrow>
          (let s1 = s\<lparr>sequenceToken := Some tok,
                      emitted := emitted s @ [PutLogEventsEvent logEvents]\<rparr>
           in if queuedLogs s1 \<noteq> [] then scheduleSendLogs s1 else s1\<lparr>writeQueued := False\<rparr>))"

section \<open>Runs\<close>

text \<open>
  What can happen to the object, one event at a time (JavaScript runs each callback to
  completion): a record is written at a clock reading; a scheduled \<^verbatim>\<open>_sendLogs\<close> runs;
  \<^verbatim>\<open>_getSequenceToken\<close> completes; the service has answered the requests of the pending
  \<^verbatim>\<open>_putLogEvents\<close>; the hook calls, after it has returned, a callback \<^verbatim>\<open>next\<close> that it
  was given. \<open>step\<close> is \<open>None\<close> for an event that cannot happen in the state: no such
  callback is pending, the answers are too few or too many for the attempts made, or no
  callback with that id was ever handed out.
\<close>

datatype event =
    Write jsval jsnum
  | Fire
  | TokenDone "error + token"
  | PutDone "(error + token) list"
  | Next nat next_arg

fun first_put :: "callback list \<Rightarrow> (token \<times> logEvent list) option" where
  "first_put [] = None"
| "first_put (PutCb tok evs # cs) = Some (tok, evs)"
| "first_put (c # cs) = first_put cs"

definition handed_out :: "cwlogs \<Rightarrow> nat list" where
  "handed_out s = map (\<lambda>(err, logEvents, cbId). cbId) (onErrorCalls s)"

definition step :: "builtins \<Rightarrow> event \<Rightarrow> cwlogs \<Rightarrow> cwlogs option" where
  "step bi e s =
     (case e of
        Write r now \<Rightarrow> (case write_impl bi now r s of Inl x \<Rightarrow> Some s | Inr s' \<Rightarrow> Some s')
      | Fire \<Rightarrow>
          if Timer \<in> set (pending s)
          then Some (sendLogs (s\<lparr>pending := remove1 Timer (pending s)\<rparr>))
          else None
      | TokenDone res \<Rightarrow>
          if TokenCb \<in> set (pending s)
          then Some (sendLogs_tokenCb res (s\<lparr>pending := remove1 TokenCb (pending s)\<rparr>))
          else None
      | PutDone answers \<Rightarrow>
          (case first_put (pending s) of
             None \<Rightarrow> None
           | Some (tok, logEvents) \<Rightarrow>
               (case attemptPut (retryableMax s) 0 answers of
                  None \<Rightarrow> None
                | Some (res, n) \<Rightarrow>
                    if n = length answers
                    then Some (sendLogs_putCb logEvents res
                           (s\<lparr>pending := remove1 (PutCb tok logEvents) (pending s),
                              requests := requests s @ replicate (n - 1) (PutLogEvents tok logEvents)\<rparr>))
                    else None))
      | Next cbId a \<Rightarrow>
          if cbId \<in> set (handed_out s) then Some (nextAfterError cbId a s) else None)"

fun run :: "builtins \<Rightarrow> event list \<Rightarrow> cwlogs \<Rightarrow> cwlogs option" where
  "run bi [] s = Some s"
| "run bi (e # es) s = (case step bi e s of None \<Rightarrow> None | Some s' \<Rightarrow> run bi es s')"

section \<open>The words of the specification\<close>

text \<open>
  The cost of a batch as the specification counts it, 26 bytes of overhead plus the size of
  the message for each event, and what it means for a prefix of length \<open>k\<close> of the queue
  to be within the two caps.
\<close>

definition batch_cost :: "cwlogs \<Rightarrow> logEvent list \<Rightarrow> nat" where
  "batch_cost s evs = sum_list (map (\<lambda>e. 26 + getMessageSize s (message e)) evs)"

definition within_caps :: "cwlogs \<Rightarrow> logEvent list \<Rightarrow> nat \<Rightarrow> bool" where
  "within_caps s q k =
     (k \<le> length q \<and> num_le (js_of_nat k) (maxBatchCount s)
      \<and> num_le (js_of_nat (batch_cost s (take k q))) (maxBatchSize s))"

text \<open>
  A cap that is not a whole number bounds a length by the next whole number: \<open>k\<close> is at
  most \<open>rounded_up c\<close> exactly when \<open>k - 1 < c\<close>. \<open>fits\<close> is \<open>within_caps\<close> with the
  two caps given as numbers, the count cap a whole one.
\<close>

definition rounded_up :: "rat \<Rightarrow> nat" where
  "rounded_up c = nat \<lceil>c\<rceil>"

definition fits :: "cwlogs \<Rightarrow> nat \<Rightarrow> rat \<Rightarrow> logEvent list \<Rightarrow> nat \<Rightarrow> bool" where
  "fits s n b q k = (k \<le> length q \<and> k \<le> n \<and> of_nat (batch_cost s (take k q)) \<le> b)"

section \<open>Concrete objects\<close>

text \<open>
  The stream built from the least options, one with small caps, and a log event with a given
  message; used to run the definitions on concrete inputs.
\<close>

definition options0 :: jsval where
  "options0 = JObj [(''logGroupName'', JStr ''g''), (''logStreamName'', JStr ''s'')]"

definition stream0 :: cwlogs where
  "stream0 = \<lparr>
     logGroupName = ''g'', logStreamName = ''s'', writeInterval = NextTick,
     retryableMax = Fin 100, retryableDelay = Delay (Fin 150),
     maxBatchCount = Fin 10000, maxBatchSize = Fin 1048576,
     filterWrite = filterWrite_default, onError = onError_default,
     getMessageSize = getMessageSize_default,
     onErrorNextCbId = 1, sequenceToken = None, writeQueued = False, queuedLogs = [],
     pending = [], onErrorCalls = [], requests = [], emitted = [] \<rparr>"

definition stream_small :: cwlogs where
  "stream_small = stream0\<lparr>maxBatchCount := Fin 2, maxBatchSize := Fin 1024\<rparr>"

definition ev_msg :: "string \<Rightarrow> logEvent" where
  "ev_msg m = \<lparr>message = m, timestamp = Fin 0\<rparr>"

text \<open>
  Stand-ins for the two functions of the runtime, used only where a definition is run on a
  concrete input: \<^verbatim>\<open>new Date(n).getTime()\<close> of a number is that number; the text of the
  serialisation plays no part in what is computed.
\<close>

definition getTime0 :: "jsval \<Rightarrow> jsnum" where
  "getTime0 v = num_of v"

definition stringify0 :: "jsval \<Rightarrow> string" where
  "stringify0 v = ''{}''"

definition builtins0 :: builtins where
  "builtins0 = \<lparr>JSON_stringify = stringify0, Date_getTime = getTime0\<rparr>"


definition options256 :: jsval where
  "options256 = JObj [(''logGroupName'', JStr ''g''), (''logStreamName'', JStr ''s''),
     (''maxBatchSize'', JNum (Fin 256))]"

definition stream256 :: cwlogs where
  "stream256 = stream0\<lparr>maxBatchSize := Fin 1024\<rparr>"

definition queue256 :: "logEvent list" where
  "queue256 = [ev_msg (replicate 224 (CHR ''x'')), ev_msg (replicate 224 (CHR ''x'')),
               ev_msg (replicate 224 (CHR ''x'')), ev_msg (replicate 224 (CHR ''x''))]"

definition retryable_error :: error where
  "retryable_error = Error ''ThrottlingException'' True"

definition fatal_error :: error where
  "fatal_error = Error ''InvalidParameterException'' False"

text \<open>
  Streams built with \<^verbatim>\<open>maxBatchCount: 1.5\<close> and with \<^verbatim>\<open>retryableMax: 1.5\<close>, which
  \<^verbatim>\<open>validateOptions\<close> accepts, and a run of the second: a record is written, the token is
  fetched, and the service answers the first two \<^verbatim>\<open>putLogEvents\<close> requests with a
  retryable error and the third with a token.
\<close>

definition options_count :: jsval where
  "options_count = JObj [(''logGroupName'', JStr ''g''), (''logStreamName'', JStr ''s''),
     (''maxBatchCount'', JNum (Fin (3 / 2)))]"

definition stream_count :: cwlogs where
  "stream_count = stream0\<lparr>maxBatchCount := Fin (3 / 2)\<rparr>"

definition options_retry :: jsval where
  "options_retry = JObj [(''logGroupName'', JStr ''g''), (''logStreamName'', JStr ''s''),
     (''retryableMax'', JNum (Fin (3 / 2)))]"

definition stream_retry :: cwlogs where
  "stream_retry = stream0\<lparr>retryableMax := Fin (3 / 2)\<rparr>"

definition trace_retry :: "event list" where
  "trace_retry = [Write (JStr ''a'') (Fin 0), Fire, TokenDone (Inr (Token ''t1'')),
     PutDone [Inl retryable_error, Inl retryable_error, Inr (Token ''t2'')]]"

definition delivered_retry :: cwlogs where
  "delivered_retry = stream_retry\<lparr>
     sequenceToken := Some (Token ''t2''),
     requests := [DescribeLogStreams, PutLogEvents (Token ''t1'') [ev_msg ''a''],
                  PutLogEvents (Token ''t1'') [ev_msg ''a''],
                  PutLogEvents (Token ''t1'') [ev_msg ''a'']],
     emitted := [PutLogEventsEvent [ev_msg ''a'']]\<rparr>"

section \<open>Order of delivery, in the words of the specification\<close>

text \<open>
  What has been delivered: the batches of the \<^verbatim>\<open>putLogEvents\<close> events emitted so far, in
  order. What is in flight: the batch of the pending \<^verbatim>\<open>_putLogEvents\<close>. What has been
  sent: the batches of all \<^verbatim>\<open>putLogEvents\<close> requests made on the client, those that
  failed included.
\<close>

definition batch_of :: "notification \<Rightarrow> logEvent list" where
  "batch_of n = (case n of PutLogEventsEvent evs \<Rightarrow> evs | ErrorEvent err \<Rightarrow> [])"

definition delivered :: "cwlogs \<Rightarrow> logEvent list" where
  "delivered s = concat (map batch_of (emitted s))"

definition carried :: "callback \<Rightarrow> logEvent list" where
  "carried c = (case c of PutCb tok evs \<Rightarrow> evs | Timer \<Rightarrow> [] | TokenCb \<Rightarrow> [])"

definition in_flight :: "cwlogs \<Rightarrow> logEvent list" where
  "in_flight s = concat (map carried (pending s))"



text \<open>
  The batch that \<^verbatim>\<open>onError\<close> was called with and whose callback \<^verbatim>\<open>next\<close> is the
  current one (its id is \<^verbatim>\<open>_onErrorNextCbId\<close>): these events wait for the hook's decision.
  \<open>content\<close> is everything the stream still answers for, oldest first.
\<close>

definition calls_by_id :: "cwlogs \<Rightarrow> (nat \<times> logEvent list option) list" where
  "calls_by_id s = map (\<lambda>(err, logEvents, cbId). (cbId, logEvents)) (onErrorCalls s)"

definition failed_of :: "cwlogs \<Rightarrow> logEvent list option" where
  "failed_of s = (case map_of (calls_by_id s) (onErrorNextCbId s) of Some evs \<Rightarrow> evs | None \<Rightarrow> None)"

definition awaiting :: "cwlogs \<Rightarrow> logEvent list" where
  "awaiting s = (case failed_of s of Some evs \<Rightarrow> evs | None \<Rightarrow> [])"

definition content :: "cwlogs \<Rightarrow> logEvent list" where
  "content s = delivered s @ in_flight s @ awaiting s @ queuedLogs s"





text \<open>
  The log events of the records that the filter accepts in a run, in the order written.
\<close>

definition enqueued_by :: "builtins \<Rightarrow> event \<Rightarrow> cwlogs \<Rightarrow> logEvent list" where
  "enqueued_by bi e s =
     (case e of
        Write r now \<Rightarrow>
          (if filterWrite s r
           then (case createLogEvent bi now r of Inr ev \<Rightarrow> [ev] | Inl x \<Rightarrow> [])
           else [])
      | _ \<Rightarrow> [])"


text \<open>
  A hook holds the current callback (\<open>recovering\<close>). At most one of these is the case:
  a callback of the stream is pending, or a hook holds the current callback; and while
  \<^verbatim>\<open>writeQueued\<close> is false, neither is. \<open>quiet\<close>: neither is.
\<close>

definition recovering :: "cwlogs \<Rightarrow> bool" where
  "recovering s = (onErrorNextCbId s \<in> set (handed_out s))"

definition single_flight :: "cwlogs \<Rightarrow> bool" where
  "single_flight s =
     ((\<forall>i \<in> set (handed_out s). i \<le> onErrorNextCbId s)
      \<and> length (pending s) + (if recovering s then 1 else 0) \<le> 1
      \<and> (\<not> writeQueued s \<longrightarrow> pending s = [] \<and> \<not> recovering s))"

definition quiet :: "cwlogs \<Rightarrow> bool" where
  "quiet s = ((\<forall>i \<in> set (handed_out s). i \<le> onErrorNextCbId s) \<and> pending s = [] \<and> \<not> recovering s)"

section \<open>Concrete runs\<close>

text \<open>
  A stream whose hook \<^verbatim>\<open>onError\<close> calls \<^verbatim>\<open>next\<close> only after it has returned, and runs of
  it: one record is written, the token is fetched, the batch is sent and fails with an error
  that is not retryable (\<open>trace_a\<close>, ending in \<open>recovering_a\<close>); then a second record
  is written, the hook re-queues the failed batch, and both events are delivered
  (\<open>trace_b\<close>, ending in \<open>delivered_ab\<close>); or the hook resumes without the batch
  (\<open>trace_c\<close>, ending in \<open>idle_null\<close>, and \<open>asking_token\<close> once the scheduled
  \<^verbatim>\<open>_sendLogs\<close> has run); or the hook calls \<^verbatim>\<open>next(err)\<close> (\<open>failed_a\<close>).
\<close>

definition later_hook :: "error \<Rightarrow> logEvent list option \<Rightarrow> next_arg list" where
  "later_hook err failed = []"

definition options_hook :: jsval where
  "options_hook = JObj [(''logGroupName'', JStr ''g''), (''logStreamName'', JStr ''s''),
     (''onError'', JFun)]"

definition stream_later :: cwlogs where
  "stream_later = stream0\<lparr>onError := later_hook\<rparr>"

definition trace_a :: "event list" where
  "trace_a = [Write (JStr ''a'') (Fin 0), Fire, TokenDone (Inr (Token ''t1'')),
              PutDone [Inl fatal_error]]"

definition recovering_a :: cwlogs where
  "recovering_a = stream_later\<lparr>
     writeQueued := True, sequenceToken := Some (Token ''t1''), onErrorNextCbId := 2,
     onErrorCalls := [(fatal_error, Some [ev_msg ''a''], 2)],
     requests := [DescribeLogStreams, PutLogEvents (Token ''t1'') [ev_msg ''a'']]\<rparr>"



definition trace_c :: "event list" where
  "trace_c = trace_a @ [Next 2 NoArg]"

definition idle_null :: cwlogs where
  "idle_null = recovering_a\<lparr>onErrorNextCbId := 3, sequenceToken := None, pending := [Timer]\<rparr>"

definition asking_token :: cwlogs where
  "asking_token = idle_null\<lparr>pending := [TokenCb],
     requests := [DescribeLogStreams, PutLogEvents (Token ''t1'') [ev_msg ''a''], DescribeLogStreams]\<rparr>"


section \<open>The constructor on concrete options\<close>

lemma CWLogsWritable_options0: "CWLogsWritable f h options0 = Inr stream0"
  by (simp add: CWLogsWritable_def validateOptions_def options0_def stream0_def)

lemma CWLogsWritable_small: "CWLogsWritable f h (JObj [(''logGroupName'', JStr ''g''), (''logStreamName'', JStr ''s''),
     (''maxBatchCount'', JNum (Fin 2)), (''maxBatchSize'', JNum (Fin 1024))]) = Inr stream_small"
  by (simp add: CWLogsWritable_def validateOptions_def stream_small_def stream0_def Math_min_def Math_max_def)

section \<open>The batch planner is the largest prefix within the caps\<close>

lemma batch_cost_take_mono: "j \<le> k \<Longrightarrow> batch_cost s (take j q) \<le> batch_cost s (take k q)"
proof -
  assume "j \<le> k"
  then have "take k q = take j q @ take (k - j) (drop j q)"
    by (metis le_add_diff_inverse take_add)
  then show ?thesis by (simp add: batch_cost_def)
qed

lemma batch_cost_take_Suc:
  "i < length q \<Longrightarrow> batch_cost s (take (Suc i) q) = batch_cost s (take i q) + (26 + getMessageSize s (message (q ! i)))"
  by (simp add: batch_cost_def take_Suc_conv_app_nth)

lemma rounded_up_le: "num_le (Fin c) (js_of_nat k) = (rounded_up c \<le> k)"
  by (auto simp: num_le_def js_of_nat_def rounded_up_def nat_le_iff ceiling_le_iff)

lemma rounded_up_less: "num_less (js_of_nat k) (Fin c) = (k < rounded_up c)"
  by (simp add: js_of_nat_def rounded_up_def zless_nat_eq_int_zless less_ceiling_iff)

lemma rounded_up_of_nat: "rounded_up (of_nat n) = n"
  by (simp add: rounded_up_def)

lemma rounded_up_3_2: "rounded_up (3 / 2) = 2"
proof -
  have "\<lceil>3 / 2 :: rat\<rceil> = 2" by (simp add: ceiling_eq_iff)
  then show ?thesis by (simp add: rounded_up_def)
qed

lemma rounded_up_numeral: "rounded_up (numeral w) = numeral w" "rounded_up 1 = 1" "rounded_up 0 = 0"
  by (simp_all add: rounded_up_def)

lemma fits_within_caps:
  "maxBatchCount s = js_of_nat n \<Longrightarrow> maxBatchSize s = Fin b \<Longrightarrow> fits s n b q k = within_caps s q k"
  by (auto simp: within_caps_def fits_def num_le_def js_of_nat_def)

lemma loop_largest:
  "maxBatchCount s = Fin c \<Longrightarrow> maxBatchSize s = Fin b \<Longrightarrow>
   i \<le> length q \<Longrightarrow> i = 0 \<or> fits s (rounded_up c) b q i \<Longrightarrow> batchCount = max 1 i \<Longrightarrow>
         sizeEstimate = batch_cost s (take i q) \<Longrightarrow>
         (\<forall>k. fits s (rounded_up c) b q k \<longrightarrow> k \<le> nextLogBatchSize_loop s q i batchCount sizeEstimate)
         \<and> (fits s (rounded_up c) b q (nextLogBatchSize_loop s q i batchCount sizeEstimate)
            \<or> nextLogBatchSize_loop s q i batchCount sizeEstimate = 1 \<and> \<not> fits s (rounded_up c) b q 1)"
proof (induction s q i batchCount sizeEstimate rule: nextLogBatchSize_loop.induct)
  case (1 s q i batchCount sizeEstimate)
  note mc = "1.prems"(1) and mb = "1.prems"(2)
  let ?sz = "sizeEstimate + (26 + getMessageSize s (message (q ! i)))"
  have brk_iff: "(num_less (maxBatchSize s) (js_of_nat ?sz) \<or> num_le (maxBatchCount s) (js_of_nat batchCount))
      = (b < of_nat ?sz \<or> rounded_up c \<le> batchCount)"
    by (simp add: mc mb rounded_up_le) (simp add: js_of_nat_def)
  show ?case
  proof (cases "i < length q")
    case False
    with "1.prems" have il: "i = length q" by simp
    have r: "nextLogBatchSize_loop s q i batchCount sizeEstimate = max 1 i"
      using False "1.prems"(5) by (subst nextLogBatchSize_loop.simps) simp
    show ?thesis unfolding r using "1.prems"(4) il by (auto simp: fits_def)
  next
    case True
    have sz: "?sz = batch_cost s (take (Suc i) q)"
      using True "1.prems"(6) by (simp add: batch_cost_take_Suc)
    show ?thesis
    proof (cases "b < of_nat ?sz \<or> rounded_up c \<le> batchCount")
      case brk: True
      have r: "nextLogBatchSize_loop s q i batchCount sizeEstimate = max 1 i"
        using True brk "1.prems"(5) brk_iff
        by (subst nextLogBatchSize_loop.simps) (simp add: Let_def)
      have "\<And>k. fits s (rounded_up c) b q k \<Longrightarrow> k \<le> max 1 i"
      proof -
        fix k assume k: "fits s (rounded_up c) b q k"
        show "k \<le> max 1 i"
        proof (rule ccontr)
          assume nk: "\<not> k \<le> max 1 i"
          then have ki: "Suc i \<le> k" by simp
          from batch_cost_take_mono [OF ki, of s q] k brk "1.prems"(5) ki nk
          show False
            unfolding sz by (auto simp: fits_def)
        qed
      qed
      then show ?thesis unfolding r using "1.prems"(4) by (cases "i = 0") auto
    next
      case cont: False
      have r: "nextLogBatchSize_loop s q i batchCount sizeEstimate
                 = nextLogBatchSize_loop s q (i + 1) (i + 1) ?sz"
        using True cont brk_iff by (subst nextLogBatchSize_loop.simps) (simp add: Let_def)
      have w: "fits s (rounded_up c) b q (i + 1)"
        using True cont "1.prems"(5) sz
        by (auto simp: fits_def)
      show ?thesis unfolding r
        by (rule "1.IH" [OF True refl _ mc mb]) (use True w sz cont brk_iff in auto)
    qed
  qed
qed


lemma loop_ge1:
  "1 \<le> batchCount \<Longrightarrow> 1 \<le> nextLogBatchSize_loop s q i batchCount sizeEstimate"
proof (induction s q i batchCount sizeEstimate rule: nextLogBatchSize_loop.induct)
  case (1 s q i batchCount sizeEstimate)
  show ?case
    using "1.prems" "1.IH"
    by (subst nextLogBatchSize_loop.simps) (simp add: Let_def)
qed

lemma nextLogBatchSize_ge1: "1 \<le> nextLogBatchSize s q"
  unfolding nextLogBatchSize_def by (rule loop_ge1) simp

lemma nextLogBatchSize_char:
  assumes "maxBatchCount s = Fin c" "maxBatchSize s = Fin b"
  shows "(\<forall>k. fits s (rounded_up c) b q k \<longrightarrow> k \<le> nextLogBatchSize s q)
         \<and> (fits s (rounded_up c) b q (nextLogBatchSize s q)
            \<or> nextLogBatchSize s q = 1 \<and> \<not> fits s (rounded_up c) b q 1)"
  unfolding nextLogBatchSize_def
  by (rule loop_largest [OF assms]) (simp_all add: batch_cost_def)

lemma stream_count_constructed:
  "CWLogsWritable f h options_count = Inr stream_count"
  by (simp add: CWLogsWritable_def validateOptions_def options_count_def stream_count_def stream0_def
        Math_min_def Math_max_def)

text \<open>
  Claim C2 as stated fails for a cap on the count that is not a whole number: the stream
  built with \<^verbatim>\<open>maxBatchCount: 1.5\<close> plans 2 of three queued events, while the prefixes
  within the caps are those of length at most 1.
\<close>

theorem fractional_maxBatchCount_counterexample:
  "CWLogsWritable filterWrite_default onError_default options_count = Inr stream_count
   \<and> nextLogBatchSize stream_count [ev_msg ''a'', ev_msg ''b'', ev_msg ''c''] = 2
   \<and> within_caps stream_count [ev_msg ''a'', ev_msg ''b'', ev_msg ''c''] 1
   \<and> \<not> within_caps stream_count [ev_msg ''a'', ev_msg ''b'', ev_msg ''c''] 2
   \<and> \<not> within_caps stream_count [ev_msg ''a'', ev_msg ''b'', ev_msg ''c''] 3"
proof -
  have "nextLogBatchSize stream_count [ev_msg ''a'', ev_msg ''b'', ev_msg ''c''] = 2"
    by (simp add: nextLogBatchSize_def nextLogBatchSize_loop.simps stream_count_def stream0_def
          ev_msg_def getMessageSize_default_def js_of_nat_def num_le_def Let_def)
  moreover have "within_caps stream_count [ev_msg ''a'', ev_msg ''b'', ev_msg ''c''] 1"
    "\<not> within_caps stream_count [ev_msg ''a'', ev_msg ''b'', ev_msg ''c''] 2"
    "\<not> within_caps stream_count [ev_msg ''a'', ev_msg ''b'', ev_msg ''c''] 3"
    by (simp_all add: within_caps_def batch_cost_def stream_count_def stream0_def ev_msg_def
          getMessageSize_default_def js_of_nat_def num_le_def)
  ultimately show ?thesis using stream_count_constructed by simp
qed

text \<open>
  Claim C2, amended. For a non-empty queue and finite caps (those of every constructed stream
  are, lemma \<open>constructed_caps_finite\<close>), \<^verbatim>\<open>nextLogBatchSize\<close>, a function of the queue
  and the two caps alone, returns a length between 1 and the length of the queue that no
  prefix fitting the caps exceeds, where the cap on the count is \<^verbatim>\<open>maxBatchCount\<close> rounded
  up to a whole number. When the first event fits, the prefix of that length fits, so it is
  the largest; when the whole queue fits the result is its length; when the cost of the first
  event alone exceeds \<^verbatim>\<open>maxBatchSize\<close> the result is 1. For a whole-number
  \<^verbatim>\<open>maxBatchCount\<close> rounding changes nothing and fitting is being within the caps.
\<close>

theorem nextLogBatchSize_largest_prefix:
  assumes q: "q \<noteq> []" and mc: "maxBatchCount s = Fin c" and mb: "maxBatchSize s = Fin b"
  shows "1 \<le> nextLogBatchSize s q \<and> nextLogBatchSize s q \<le> length q
       \<and> (\<forall>k. fits s (rounded_up c) b q k \<longrightarrow> k \<le> nextLogBatchSize s q)
       \<and> (fits s (rounded_up c) b q 1 \<longrightarrow> fits s (rounded_up c) b q (nextLogBatchSize s q))
       \<and> (fits s (rounded_up c) b q (length q) \<longrightarrow> nextLogBatchSize s q = length q)
       \<and> (b < of_nat (26 + getMessageSize s (message (hd q))) \<longrightarrow> nextLogBatchSize s q = 1)
       \<and> (c = of_nat n \<longrightarrow>
            rounded_up c = n \<and> (\<forall>k. fits s (rounded_up c) b q k = within_caps s q k))"
proof -
  let ?r = "nextLogBatchSize s q"
  let ?n = "rounded_up c"
  from nextLogBatchSize_char [OF mc mb, of q]
  have mx: "\<And>k. fits s ?n b q k \<Longrightarrow> k \<le> ?r"
    and alt: "fits s ?n b q ?r \<or> ?r = 1 \<and> \<not> fits s ?n b q 1"
    by blast+
  have c1: "batch_cost s (take 1 q) = 26 + getMessageSize s (message (hd q))"
    using q by (cases q) (simp_all add: batch_cost_def)
  have len: "1 \<le> length q" using q by (cases q) simp_all
  have ge1: "1 \<le> ?r" by (rule nextLogBatchSize_ge1)
  have le: "?r \<le> length q" using alt len by (auto simp: fits_def)
  have p1: "fits s ?n b q 1 \<Longrightarrow> fits s ?n b q ?r" using alt by blast
  have full: "fits s ?n b q (length q) \<Longrightarrow> ?r = length q"
    using mx [of "length q"] le by simp
  have big: "b < of_nat (26 + getMessageSize s (message (hd q))) \<Longrightarrow> ?r = 1"
  proof -
    assume big: "b < of_nat (26 + getMessageSize s (message (hd q)))"
    have "\<not> fits s ?n b q ?r"
    proof
      assume w: "fits s ?n b q ?r"
      from batch_cost_take_mono [OF ge1, of s q]
      have "(of_nat (batch_cost s (take 1 q)) :: rat) \<le> of_nat (batch_cost s (take ?r q))"
        by (simp only: of_nat_le_iff)
      with w big show False unfolding fits_def c1 by linarith
    qed
    with alt show ?thesis by blast
  qed
  have whole: "c = of_nat n \<Longrightarrow> rounded_up c = n \<and> (\<forall>k. fits s (rounded_up c) b q k = within_caps s q k)"
    using mc mb by (simp add: rounded_up_of_nat fits_within_caps js_of_nat_def)
  show ?thesis using ge1 le mx p1 full big whole by blast
qed

theorem nextLogBatchSize_largest_prefix_witness:
  "nextLogBatchSize stream_small [ev_msg ''a'', ev_msg ''b''] = 2
   \<and> within_caps stream_small [ev_msg ''a'', ev_msg ''b'', ev_msg ''c'']
        (nextLogBatchSize stream_small [ev_msg ''a'', ev_msg ''b'', ev_msg ''c''])
   \<and> nextLogBatchSize stream_small [ev_msg (replicate 1000 (CHR ''x''))] = 1
   \<and> fits stream_count 2 1048576 [ev_msg ''a'', ev_msg ''b'', ev_msg ''c'']
        (nextLogBatchSize stream_count [ev_msg ''a'', ev_msg ''b'', ev_msg ''c''])"
proof -
  have mc: "maxBatchCount stream_small = Fin 2"
    and mb: "maxBatchSize stream_small = Fin 1024"
    and mcf: "maxBatchCount stream_count = Fin (3 / 2)"
    and mbf: "maxBatchSize stream_count = Fin 1048576"
    by (simp_all add: stream_small_def stream_count_def stream0_def)
  have r2: "rounded_up 2 = 2" by (simp add: rounded_up_def)
  have sz: "getMessageSize stream_small = length" "getMessageSize stream_count = length"
    by (rule ext, simp add: stream_small_def stream0_def getMessageSize_default_def)
       (rule ext, simp add: stream_count_def stream0_def getMessageSize_default_def)
  have a: "fits stream_small 2 1024 [ev_msg ''a'', ev_msg ''b''] (length [ev_msg ''a'', ev_msg ''b''])"
    by (simp add: fits_def batch_cost_def sz ev_msg_def)
  have b: "fits stream_small 2 1024 [ev_msg ''a'', ev_msg ''b'', ev_msg ''c''] 1"
    by (simp add: fits_def batch_cost_def sz ev_msg_def)
  have c: "(1024 :: rat) < of_nat (26 + getMessageSize stream_small
             (message (hd [ev_msg (replicate 1000 (CHR ''x''))])))"
    by (simp add: sz ev_msg_def)
  have d: "fits stream_count 2 1048576 [ev_msg ''a'', ev_msg ''b'', ev_msg ''c''] 1"
    by (simp add: fits_def batch_cost_def sz ev_msg_def)
  have w: "(2 :: rat) = of_nat 2" by simp
  have ne: "[ev_msg ''a'', ev_msg ''b''] \<noteq> []" "[ev_msg ''a'', ev_msg ''b'', ev_msg ''c''] \<noteq> []"
    "[ev_msg (replicate 1000 (CHR ''x''))] \<noteq> []"
    by simp_all
  from nextLogBatchSize_largest_prefix [OF ne(1) mc mb, of 2, unfolded r2] a
  have "nextLogBatchSize stream_small [ev_msg ''a'', ev_msg ''b''] = length [ev_msg ''a'', ev_msg ''b'']"
    by blast
  then have g1: "nextLogBatchSize stream_small [ev_msg ''a'', ev_msg ''b''] = 2" by simp
  from nextLogBatchSize_largest_prefix [OF ne(2) mc mb, of 2, unfolded r2] b w
  have g2: "within_caps stream_small [ev_msg ''a'', ev_msg ''b'', ev_msg ''c'']
        (nextLogBatchSize stream_small [ev_msg ''a'', ev_msg ''b'', ev_msg ''c''])"
    by blast
  from nextLogBatchSize_largest_prefix [OF ne(3) mc mb, of 2] c
  have g3: "nextLogBatchSize stream_small [ev_msg (replicate 1000 (CHR ''x''))] = 1"
    by blast
  from nextLogBatchSize_largest_prefix [OF ne(2) mcf mbf, of 0, unfolded rounded_up_3_2] d
  have g4: "fits stream_count 2 1048576 [ev_msg ''a'', ev_msg ''b'', ev_msg ''c'']
        (nextLogBatchSize stream_count [ev_msg ''a'', ev_msg ''b'', ev_msg ''c''])"
    by blast
  from g1 g2 g3 g4 show ?thesis by blast
qed

text \<open>
  Claim C10. On the empty queue \<^verbatim>\<open>nextLogBatchSize\<close> returns 1, although the only prefix
  of the empty queue within the caps has length 0; \<^verbatim>\<open>_sendLogs\<close> on an empty queue
  either asks for the sequence token or clears \<^verbatim>\<open>writeQueued\<close>, and in neither case sends
  a batch of the planned size.
\<close>

theorem nextLogBatchSize_empty_queue:
  "nextLogBatchSize s [] = 1
   \<and> (\<forall>k. within_caps s [] k \<longrightarrow> k = 0)
   \<and> (queuedLogs s = [] \<longrightarrow>
        sendLogs s = (case sequenceToken s of None \<Rightarrow> getSequenceToken s
                      | Some tok \<Rightarrow> s\<lparr>writeQueued := False\<rparr>))"
  by (simp add: nextLogBatchSize_def within_caps_def sendLogs_def split: option.split)



theorem nextLogBatchSize_empty_queue_witness:
  "queuedLogs stream0 = [] \<and> within_caps stream0 [] 0 \<and> nextLogBatchSize stream0 [] = 1
   \<and> sendLogs stream0 = getSequenceToken stream0
   \<and> sendLogs (stream0\<lparr>sequenceToken := Some NoToken, writeQueued := True\<rparr>)
       = stream0\<lparr>sequenceToken := Some NoToken, writeQueued := False\<rparr>"
proof -
  have w: "within_caps stream0 [] 0"
    by (simp add: stream0_def within_caps_def js_of_nat_def num_le_def batch_cost_def)
  have q: "queuedLogs stream0 = []"
    and t: "sequenceToken stream0 = None"
    by (simp_all add: stream0_def)
  from nextLogBatchSize_empty_queue [of stream0]
    nextLogBatchSize_empty_queue [of "stream0\<lparr>sequenceToken := Some NoToken, writeQueued := True\<rparr>"]
  show ?thesis using w q t by simp
qed

section \<open>The byte cap set by the constructor\<close>

lemma validateOptions_CWLogsWritable:
  assumes "CWLogsWritable f h options = Inr s"
  shows "validateOptions options = Inr ()"
  using assms by (cases "validateOptions options") (auto simp: CWLogsWritable_def)

lemma maxBatchSize_CWLogsWritable:
  assumes "CWLogsWritable f h options = Inr s"
  shows "maxBatchSize s =
           (if typeof (getprop options ''maxBatchSize'') = TNumber
            then Math_min (Fin 1048576) (Math_max (Fin 1024) (num_of (getprop options ''maxBatchSize'')))
            else Fin 1048576)"
  using assms by (cases "validateOptions options") (auto simp: CWLogsWritable_def)

lemma validateOptions_maxBatchSize:
  assumes "validateOptions options = Inr u" and "hasOwnProperty options ''maxBatchSize''"
  shows "isFiniteNumber (getprop options ''maxBatchSize'')
         \<and> \<not> num_less (num_of (getprop options ''maxBatchSize'')) (Fin 256)
         \<and> \<not> num_less (Fin 1048576) (num_of (getprop options ''maxBatchSize''))"
  using assms unfolding validateOptions_def
  by (simp split: if_splits)

text \<open>
  A value that is not a finite number from 256 to 1048576 makes the constructor throw;
  a finite number from 1024 to 1048576 becomes the cap; a finite number from 256 to 1023 is
  accepted and the cap is 1024.
\<close>

lemma maxBatchSize_out_of_range:
  assumes "hasOwnProperty options ''maxBatchSize''"
    and "\<And>x. getprop options ''maxBatchSize'' = JNum (Fin x) \<Longrightarrow> x < 256 \<or> 1048576 < x"
  shows "\<exists>e. CWLogsWritable f h options = Inl e"
proof (cases "validateOptions options")
  case (Inl e)
  then show ?thesis by (simp add: CWLogsWritable_def)
next
  case (Inr u)
  from validateOptions_maxBatchSize [OF Inr assms(1)] assms(2)
  have False
    by (cases "getprop options ''maxBatchSize''" rule: isFiniteNumber.cases) auto
  then show ?thesis ..
qed

lemma maxBatchSize_in_range:
  assumes "CWLogsWritable f h options = Inr s"
    and "getprop options ''maxBatchSize'' = JNum (Fin x)" and "1024 \<le> x" and "x \<le> 1048576"
  shows "maxBatchSize s = Fin x"
  using assms(2-) by (auto simp: maxBatchSize_CWLogsWritable [OF assms(1)] Math_min_def Math_max_def)

lemma maxBatchSize_below_1024:
  assumes "CWLogsWritable f h options = Inr s"
    and "getprop options ''maxBatchSize'' = JNum (Fin x)" and "x < 1024"
  shows "maxBatchSize s = Fin 1024"
  using assms(2-) by (auto simp: maxBatchSize_CWLogsWritable [OF assms(1)] Math_min_def Math_max_def)

lemma getprop_number_own: "typeof (getprop options k) = TNumber \<Longrightarrow> hasOwnProperty options k"
  by (cases options) (auto split: option.splits)

lemma validateOptions_maxBatchCount:
  assumes "validateOptions options = Inr u" and "hasOwnProperty options ''maxBatchCount''"
  shows "isFiniteNumber (getprop options ''maxBatchCount'')
         \<and> \<not> num_less (num_of (getprop options ''maxBatchCount'')) (Fin 1)
         \<and> \<not> num_less (Fin 10000) (num_of (getprop options ''maxBatchCount''))"
  using assms unfolding validateOptions_def
  by (simp split: if_splits)

lemma validateOptions_retryableMax:
  assumes "validateOptions options = Inr u" and "hasOwnProperty options ''retryableMax''"
  shows "isFiniteNumber (getprop options ''retryableMax'')
         \<and> \<not> num_less (num_of (getprop options ''retryableMax'')) (Fin 1)"
  using assms unfolding validateOptions_def
  by (simp split: if_splits)

lemma maxBatchCount_CWLogsWritable:
  assumes "CWLogsWritable f h options = Inr s"
  shows "maxBatchCount s =
           (if typeof (getprop options ''maxBatchCount'') = TNumber
            then Math_min (Fin 10000) (Math_max (Fin 1) (num_of (getprop options ''maxBatchCount'')))
            else Fin 10000)"
  using assms by (cases "validateOptions options") (auto simp: CWLogsWritable_def)

lemma retryableMax_CWLogsWritable:
  assumes "CWLogsWritable f h options = Inr s"
  shows "retryableMax s =
           (if typeof (getprop options ''retryableMax'') = TNumber
            then Math_max (Fin 0) (num_of (getprop options ''retryableMax''))
            else Fin 100)"
  using assms by (cases "validateOptions options") (auto simp: CWLogsWritable_def)

lemma finite_number_cases:
  assumes "isFiniteNumber v"
  obtains x where "v = JNum (Fin x)"
  using assms by (cases v rule: isFiniteNumber.cases) auto

lemma constructed_caps_finite:
  assumes "CWLogsWritable f h options = Inr s"
  shows "\<exists>c b m. maxBatchCount s = Fin c \<and> 1 \<le> c \<and> c \<le> 10000
           \<and> maxBatchSize s = Fin b \<and> 1024 \<le> b \<and> b \<le> 1048576
           \<and> retryableMax s = Fin m \<and> 1 \<le> m"
proof -
  note v = validateOptions_CWLogsWritable [OF assms]
  have 1: "\<exists>c. maxBatchCount s = Fin c \<and> 1 \<le> c \<and> c \<le> 10000"
  proof (cases "typeof (getprop options ''maxBatchCount'') = TNumber")
    case True
    from validateOptions_maxBatchCount [OF v getprop_number_own [OF True]]
    show ?thesis
      by (elim conjE finite_number_cases)
         (auto simp: maxBatchCount_CWLogsWritable [OF assms] Math_min_def Math_max_def)
  next
    case False
    then show ?thesis by (simp add: maxBatchCount_CWLogsWritable [OF assms])
  qed
  have 2: "\<exists>b. maxBatchSize s = Fin b \<and> 1024 \<le> b \<and> b \<le> 1048576"
  proof (cases "typeof (getprop options ''maxBatchSize'') = TNumber")
    case True
    from validateOptions_maxBatchSize [OF v getprop_number_own [OF True]]
    show ?thesis
      by (elim conjE finite_number_cases)
         (auto simp: maxBatchSize_CWLogsWritable [OF assms] Math_min_def Math_max_def)
  next
    case False
    then show ?thesis by (simp add: maxBatchSize_CWLogsWritable [OF assms])
  qed
  have 3: "\<exists>m. retryableMax s = Fin m \<and> 1 \<le> m"
  proof (cases "typeof (getprop options ''retryableMax'') = TNumber")
    case True
    from validateOptions_retryableMax [OF v getprop_number_own [OF True]]
    show ?thesis
      by (elim conjE finite_number_cases)
         (auto simp: retryableMax_CWLogsWritable [OF assms] Math_max_def)
  next
    case False
    then show ?thesis by (simp add: retryableMax_CWLogsWritable [OF assms])
  qed
  from 1 2 3 show ?thesis by blast
qed

text \<open>
  Claim C7, at the option value 256, which \<^verbatim>\<open>validateOptions\<close> accepts: the constructor
  returns a stream whose \<^verbatim>\<open>maxBatchSize\<close> is 1024, and the planner puts four events of
  250 bytes each, 1000 bytes in all, into one batch.
\<close>

theorem maxBatchSize_256_becomes_1024:
  "CWLogsWritable f h options256 = Inr stream256
   \<and> maxBatchSize stream256 = Fin 1024
   \<and> batch_cost stream256 queue256 = 1000
   \<and> nextLogBatchSize stream256 queue256 = 4"
proof -
  have "CWLogsWritable f h options256 = Inr stream256"
    by (simp add: CWLogsWritable_def validateOptions_def options256_def stream256_def
          stream0_def Math_min_def Math_max_def)
  moreover have "maxBatchSize stream256 = Fin 1024"
    by (simp add: stream256_def)
  moreover have "batch_cost stream256 queue256 = 1000"
    by (simp add: batch_cost_def stream256_def stream0_def ev_msg_def queue256_def
          getMessageSize_default_def)
  moreover have "nextLogBatchSize stream256 queue256 = 4"
    by (simp add: nextLogBatchSize_def nextLogBatchSize_loop.simps stream256_def stream0_def
          ev_msg_def queue256_def getMessageSize_default_def js_of_nat_def num_le_def Let_def)
  ultimately show ?thesis by blast
qed

section \<open>Log events made from records\<close>

lemma createLogEvent_null: "createLogEvent bi now JNull = Inl TypeError"
  by (simp add: createLogEvent_def)

lemma filterWrite_default_not_null: "filterWrite_default r \<Longrightarrow> r \<noteq> JNull"
  by (simp add: filterWrite_default_def)




section \<open>The retry loop of \<^verbatim>\<open>_putLogEvents\<close>\<close>

lemma foldl_nextAfterError_onErrorCalls:
  "onErrorCalls (foldl (\<lambda>t a. nextAfterError i a t) s as) = onErrorCalls s"
  by (induction as arbitrary: s)
     (auto simp: nextAfterError_def handleError_def clearQueue_def scheduleSendLogs_def Let_def
           split: next_arg.splits)

lemma onErrorCalls_callOnError:
  "onErrorCalls (callOnError err evs s) = onErrorCalls s @ [(err, evs, onErrorNextCbId s + 1)]"
  by (simp add: callOnError_def Let_def foldl_nextAfterError_onErrorCalls)

lemma attemptPut_answers:
  "\<forall>e \<in> set errs. retryable e \<Longrightarrow> retries + length errs \<le> rounded_up c \<Longrightarrow>
   (case x of Inr tok \<Rightarrow> True | Inl e \<Rightarrow> \<not> retryable e \<or> retries + length errs = rounded_up c) \<Longrightarrow>
   attemptPut (Fin c) retries (map Inl errs @ x # rest) = Some (x, length errs + 1)"
proof (induction errs arbitrary: retries)
  case Nil
  then show ?case by (cases x) (auto simp: rounded_up_less)
next
  case (Cons e errs)
  from Cons.prems have "attemptPut (Fin c) (retries + 1) (map Inl errs @ x # rest)
      = Some (x, length errs + 1)"
    by (intro Cons.IH) (auto split: sum.splits)
  with Cons.prems show ?case by (simp add: rounded_up_less)
qed

lemma foldl_nextAfterError_requests:
  "requests (foldl (\<lambda>t a. nextAfterError i a t) s as) = requests s"
  by (induction as arbitrary: s)
     (auto simp: nextAfterError_def handleError_def clearQueue_def scheduleSendLogs_def Let_def
           split: next_arg.splits)

lemma requests_callOnError: "requests (callOnError err evs s) = requests s"
  by (simp add: callOnError_def Let_def foldl_nextAfterError_requests)

lemma step_PutDone:
  assumes "pending t = []" and "retryableMax t = Fin c"
    and "attemptPut (Fin c) 0 answers = Some (res, n)" and "n = length answers"
  shows "\<exists>s'. step bi (PutDone answers) (putLogEvents tok evs t) = Some s'
          \<and> requests s' = requests t @ replicate n (PutLogEvents tok evs)
          \<and> (case res of
                Inr tok' \<Rightarrow> emitted s' = emitted t @ [PutLogEventsEvent evs]
                            \<and> sequenceToken s' = Some tok' \<and> onErrorCalls s' = onErrorCalls t
              | Inl err \<Rightarrow> onErrorCalls s' = onErrorCalls t @ [(err, Some evs, onErrorNextCbId t + 1)])"
proof -
  from assms(3) have "answers \<noteq> []" by (cases answers) auto
  with assms(4) have "n \<noteq> 0" by simp
  then obtain k where n: "n = Suc k" by (cases n) auto
  from n assms(4) have la: "length answers = Suc k" by simp
  have rep: "PutLogEvents tok evs # replicate (length answers - Suc 0) (PutLogEvents tok evs)
      = replicate (length answers) (PutLogEvents tok evs)"
    by (simp add: la)
  show ?thesis
    using assms rep
    by (cases res)
       (simp_all add: step_def putLogEvents_def sendLogs_putCb_def requests_callOnError
          onErrorCalls_callOnError scheduleSendLogs_def Let_def)
qed

lemma step_PutDone_None:
  assumes "pending t = []" and "retryableMax t = Fin c"
    and "attemptPut (Fin c) 0 answers = Some (res, n)" and "n \<noteq> length answers"
  shows "step bi (PutDone answers) (putLogEvents tok evs t) = None"
  using assms by (simp add: step_def putLogEvents_def)

lemma stream_retry_constructed:
  "CWLogsWritable f h options_retry = Inr stream_retry"
  by (simp add: CWLogsWritable_def validateOptions_def options_retry_def stream_retry_def stream0_def
        Math_min_def Math_max_def)

lemma run_trace_retry: "run builtins0 trace_retry stream_retry = Some delivered_retry"
  by (simp add: trace_retry_def stream_retry_def delivered_retry_def retryable_error_def
        stream0_def step_def write_impl_def
        createLogEvent_def builtins0_def filterWrite_default_def scheduleSendLogs_def sendLogs_def
        getSequenceToken_def putLogEvents_def sendLogs_tokenCb_def sendLogs_putCb_def
        Let_def js_of_nat_def
        nextLogBatchSize_def nextLogBatchSize_loop.simps getMessageSize_default_def num_le_def
        ev_msg_def)

text \<open>
  Claim C3 as stated fails for a \<^verbatim>\<open>retryableMax\<close> that is not a whole number: on the
  stream built with \<^verbatim>\<open>retryableMax: 1.5\<close> the service fails the first 2 requests with a
  retryable error; 1.5 is less than 2, and yet a third request is made, it succeeds, the
  batch is delivered and \<^verbatim>\<open>onError\<close> is never called.
\<close>

theorem fractional_retryableMax_counterexample:
  "CWLogsWritable filterWrite_default onError_default options_retry = Inr stream_retry
   \<and> retryableMax stream_retry = Fin (3 / 2)
   \<and> run builtins0 trace_retry stream_retry = Some delivered_retry
   \<and> requests delivered_retry
       = [DescribeLogStreams, PutLogEvents (Token ''t1'') [ev_msg ''a''],
          PutLogEvents (Token ''t1'') [ev_msg ''a''], PutLogEvents (Token ''t1'') [ev_msg ''a'']]
   \<and> emitted delivered_retry = [PutLogEventsEvent [ev_msg ''a'']]
   \<and> onErrorCalls delivered_retry = []"
  using stream_retry_constructed run_trace_retry
  by (simp add: delivered_retry_def stream_retry_def stream0_def)

text \<open>
  Claim C3, amended. \<^verbatim>\<open>_putLogEvents\<close> has made its first request, no other callback is
  pending, \<^verbatim>\<open>retryableMax\<close> is finite and \<open>M\<close> is \<^verbatim>\<open>retryableMax\<close> rounded up to a whole
  number (itself, when it is whole). The service answers the first \<open>N \<ge> 1\<close> requests with
  retryable errors and the next with a token. If \<open>N \<le> M\<close>, exactly \<open>N + 1\<close> requests
  are made, the token is stored and the delivery of the batch is emitted. If \<open>M < N\<close>,
  exactly \<open>M + 1\<close> requests are made, \<^verbatim>\<open>onError\<close> is called with the error of the last
  one and the batch, and the request that would have succeeded is never made. An error
  that is not retryable, after \<open>j \<le> M\<close> retried ones and in particular as the first
  answer, is passed to \<^verbatim>\<open>onError\<close> with the batch and no further request is made.
\<close>

theorem putLogEvents_attempts:
  assumes c: "retryableMax t = Fin c" and p: "pending t = []"
    and r: "\<forall>e \<in> set errs. retryable e" and N: "length errs = N" "1 \<le> N"
  shows "(N \<le> rounded_up c \<longrightarrow>
           (\<exists>s'. step bi (PutDone (map Inl errs @ [Inr tok'])) (putLogEvents tok evs t) = Some s'
              \<and> requests s' = requests t @ replicate (N + 1) (PutLogEvents tok evs)
              \<and> emitted s' = emitted t @ [PutLogEventsEvent evs]
              \<and> sequenceToken s' = Some tok' \<and> onErrorCalls s' = onErrorCalls t))
       \<and> (rounded_up c < N \<longrightarrow>
           (\<exists>s'. step bi (PutDone (map Inl (take (rounded_up c + 1) errs))) (putLogEvents tok evs t) = Some s'
              \<and> requests s' = requests t @ replicate (rounded_up c + 1) (PutLogEvents tok evs)
              \<and> onErrorCalls s'
                  = onErrorCalls t @ [(errs ! rounded_up c, Some evs, onErrorNextCbId t + 1)])
           \<and> step bi (PutDone (map Inl errs @ [Inr tok'])) (putLogEvents tok evs t) = None)
       \<and> (\<not> retryable e \<and> j \<le> N \<and> j \<le> rounded_up c \<longrightarrow>
           (\<exists>s'. step bi (PutDone (map Inl (take j errs) @ [Inl e])) (putLogEvents tok evs t) = Some s'
              \<and> requests s' = requests t @ replicate (j + 1) (PutLogEvents tok evs)
              \<and> onErrorCalls s' = onErrorCalls t @ [(e, Some evs, onErrorNextCbId t + 1)])
           \<and> (later \<noteq> [] \<longrightarrow>
                step bi (PutDone (map Inl (take j errs) @ Inl e # later)) (putLogEvents tok evs t) = None))
       \<and> (c = of_nat m \<longrightarrow> rounded_up c = m)"
proof -
  let ?M = "rounded_up c"
  have 1: "(\<exists>s'. step bi (PutDone (map Inl errs @ [Inr tok'])) (putLogEvents tok evs t) = Some s'
              \<and> requests s' = requests t @ replicate (N + 1) (PutLogEvents tok evs)
              \<and> emitted s' = emitted t @ [PutLogEventsEvent evs]
              \<and> sequenceToken s' = Some tok' \<and> onErrorCalls s' = onErrorCalls t)"
    if "N \<le> ?M"
  proof -
    from that N have "attemptPut (Fin c) 0 (map Inl errs @ [Inr tok']) = Some (Inr tok', N + 1)"
      using attemptPut_answers [OF r, of 0 c "Inr tok'" "[]"] by simp
    from step_PutDone [OF p c this, of bi tok evs] N show ?thesis by simp
  qed
  have 2: "(\<exists>s'. step bi (PutDone (map Inl (take (?M + 1) errs))) (putLogEvents tok evs t) = Some s'
              \<and> requests s' = requests t @ replicate (?M + 1) (PutLogEvents tok evs)
              \<and> onErrorCalls s'
                  = onErrorCalls t @ [(errs ! ?M, Some evs, onErrorNextCbId t + 1)])
           \<and> step bi (PutDone (map Inl errs @ [Inr tok'])) (putLogEvents tok evs t) = None"
    if "?M < N"
  proof -
    from that N have tk: "take (?M + 1) errs = take ?M errs @ [errs ! ?M]"
      by (simp add: take_Suc_conv_app_nth)
    from that N have sp: "errs = take ?M errs @ errs ! ?M # drop (Suc ?M) errs"
      by (simp add: id_take_nth_drop [symmetric])
    have rt: "\<forall>e \<in> set (take ?M errs). retryable e" using r by (auto dest: in_set_takeD)
    have l: "length (take ?M errs) = ?M" using that N by simp
    have a: "attemptPut (Fin c) 0 (map Inl (take ?M errs) @ Inl (errs ! ?M) # rest)
        = Some (Inl (errs ! ?M), ?M + 1)" for rest
      using attemptPut_answers [OF rt, of 0 c "Inl (errs ! ?M)" rest] l by simp
    have a1: "attemptPut (Fin c) 0 (map Inl (take (?M + 1) errs)) = Some (Inl (errs ! ?M), ?M + 1)"
      unfolding tk using a [of "[]"] by simp
    have "map Inl errs @ [Inr tok'] = map Inl (take ?M errs) @ Inl (errs ! ?M)
            # (map Inl (drop (Suc ?M) errs) @ [Inr tok'])"
      by (subst sp) simp
    then have a2: "attemptPut (Fin c) 0 (map Inl errs @ [Inr tok']) = Some (Inl (errs ! ?M), ?M + 1)"
      using a by simp
    from step_PutDone [OF p c a1, of bi tok evs] step_PutDone_None [OF p c a2, of bi tok evs]
      that N
    show ?thesis by simp
  qed
  have 3: "(\<exists>s'. step bi (PutDone (map Inl (take j errs) @ [Inl e])) (putLogEvents tok evs t) = Some s'
              \<and> requests s' = requests t @ replicate (j + 1) (PutLogEvents tok evs)
              \<and> onErrorCalls s' = onErrorCalls t @ [(e, Some evs, onErrorNextCbId t + 1)])
           \<and> (later \<noteq> [] \<longrightarrow>
                step bi (PutDone (map Inl (take j errs) @ Inl e # later)) (putLogEvents tok evs t) = None)"
    if "\<not> retryable e" "j \<le> N" "j \<le> ?M"
  proof -
    have rt: "\<forall>e \<in> set (take j errs). retryable e" using r by (auto dest: in_set_takeD)
    have l: "length (take j errs) = j" using that N by simp
    have a: "attemptPut (Fin c) 0 (map Inl (take j errs) @ Inl e # rest) = Some (Inl e, j + 1)" for rest
      using attemptPut_answers [OF rt, of 0 c "Inl e" rest] l that by simp
    from step_PutDone [OF p c a [of "[]"], of bi tok evs]
      step_PutDone_None [OF p c a [of later], of bi tok evs] l
    show ?thesis by auto
  qed
  from 1 2 3 show ?thesis by (auto simp: rounded_up_of_nat)
qed

theorem putLogEvents_attempts_witness:
  "retryableMax stream_retry = Fin (3 / 2) \<and> pending stream_retry = []
   \<and> map_option requests (step builtins0
         (PutDone [Inl retryable_error, Inl retryable_error, Inr (Token ''t2'')])
         (putLogEvents (Token ''t1'') [ev_msg ''a''] stream_retry))
       = Some (replicate 3 (PutLogEvents (Token ''t1'') [ev_msg ''a'']))
   \<and> map_option onErrorCalls (step builtins0
         (PutDone [Inl retryable_error, Inl retryable_error, Inl retryable_error])
         (putLogEvents (Token ''t1'') [ev_msg ''a''] stream_retry))
       = Some [(retryable_error, Some [ev_msg ''a''], 2)]
   \<and> step builtins0
         (PutDone [Inl retryable_error, Inl retryable_error, Inl retryable_error, Inr (Token ''t2'')])
         (putLogEvents (Token ''t1'') [ev_msg ''a''] stream_retry) = None
   \<and> map_option onErrorCalls (step builtins0
         (PutDone [Inl retryable_error, Inl fatal_error])
         (putLogEvents (Token ''t1'') [ev_msg ''a''] stream_retry))
       = Some [(fatal_error, Some [ev_msg ''a''], 2)]
   \<and> step builtins0
         (PutDone [Inl retryable_error, Inl fatal_error, Inr (Token ''t2'')])
         (putLogEvents (Token ''t1'') [ev_msg ''a''] stream_retry) = None"
proof -
  have c: "retryableMax stream_retry = Fin (3 / 2)" and p: "pending stream_retry = []"
    and f: "requests stream_retry = []" "onErrorCalls stream_retry = []"
      "onErrorNextCbId stream_retry = 1"
    by (simp_all add: stream_retry_def stream0_def)
  have r2: "\<forall>e \<in> set [retryable_error, retryable_error]. retryable e"
    and r3: "\<forall>e \<in> set [retryable_error, retryable_error, retryable_error]. retryable e"
    and nf: "\<not> retryable fatal_error"
    by (simp_all add: retryable_error_def fatal_error_def)
  note a = putLogEvents_attempts [OF c p r2 refl, of builtins0 "Token ''t2''" "Token ''t1''"
      "[ev_msg ''a'']" fatal_error 0 "[]" 0, unfolded rounded_up_3_2]
  note b = putLogEvents_attempts [OF c p r3 refl, of builtins0 "Token ''t2''" "Token ''t1''"
      "[ev_msg ''a'']" fatal_error 1 "[Inr (Token ''t2'')]" 0, unfolded rounded_up_3_2]
  from a have g1: "map_option requests (step builtins0
         (PutDone [Inl retryable_error, Inl retryable_error, Inr (Token ''t2'')])
         (putLogEvents (Token ''t1'') [ev_msg ''a''] stream_retry))
       = Some (replicate 3 (PutLogEvents (Token ''t1'') [ev_msg ''a'']))"
    by (auto simp: f numeral_3_eq_3)
  from b nf have g2: "map_option onErrorCalls (step builtins0
         (PutDone [Inl retryable_error, Inl retryable_error, Inl retryable_error])
         (putLogEvents (Token ''t1'') [ev_msg ''a''] stream_retry))
       = Some [(retryable_error, Some [ev_msg ''a''], 2)]"
    and g3: "step builtins0
         (PutDone [Inl retryable_error, Inl retryable_error, Inl retryable_error, Inr (Token ''t2'')])
         (putLogEvents (Token ''t1'') [ev_msg ''a''] stream_retry) = None"
    and g4: "map_option onErrorCalls (step builtins0
         (PutDone [Inl retryable_error, Inl fatal_error])
         (putLogEvents (Token ''t1'') [ev_msg ''a''] stream_retry))
       = Some [(fatal_error, Some [ev_msg ''a''], 2)]"
    and g5: "step builtins0
         (PutDone [Inl retryable_error, Inl fatal_error, Inr (Token ''t2'')])
         (putLogEvents (Token ''t1'') [ev_msg ''a''] stream_retry) = None"
    by (auto simp: f numeral_3_eq_3)
  from c p g1 g2 g3 g4 g5 show ?thesis by blast
qed

section \<open>One callback at a time, and the order of the events\<close>

lemma handed_out_calls_by_id: "map fst (calls_by_id s) = handed_out s"
  by (simp add: calls_by_id_def handed_out_def case_prod_unfold comp_def)

lemma failed_of_not_recovering: "\<not> recovering s \<Longrightarrow> failed_of s = None"
proof -
  assume "\<not> recovering s"
  then have "onErrorNextCbId s \<notin> fst ` set (calls_by_id s)"
    using handed_out_calls_by_id [of s, symmetric] by (simp add: recovering_def)
  then have "map_of (calls_by_id s) (onErrorNextCbId s) = None"
    by (simp add: map_of_eq_None_iff)
  then show ?thesis by (simp add: failed_of_def)
qed

lemma awaiting_not_recovering: "\<not> recovering s \<Longrightarrow> awaiting s = []"
  by (simp add: awaiting_def failed_of_not_recovering)

lemma same_calls:
  assumes "onErrorCalls s' = onErrorCalls s" "onErrorNextCbId s' = onErrorNextCbId s"
  shows "handed_out s' = handed_out s" "recovering s' = recovering s"
    "failed_of s' = failed_of s" "awaiting s' = awaiting s"
  using assms by (simp_all add: handed_out_def recovering_def failed_of_def awaiting_def calls_by_id_def)

lemma sendLogs_fields:
  "onErrorCalls (sendLogs t) = onErrorCalls t" "onErrorNextCbId (sendLogs t) = onErrorNextCbId t"
  "emitted (sendLogs t) = emitted t" "onError (sendLogs t) = onError t"
  "filterWrite (sendLogs t) = filterWrite t"
  by (simp_all add: sendLogs_def getSequenceToken_def putLogEvents_def Let_def split: option.split)

lemma sendLogs_pending:
  assumes "pending t = []"
  shows "length (pending (sendLogs t)) \<le> 1"
    and "in_flight (sendLogs t) @ queuedLogs (sendLogs t) = queuedLogs t"
    and "writeQueued t \<Longrightarrow> \<not> writeQueued (sendLogs t) \<Longrightarrow> pending (sendLogs t) = []"
  using assms
  by (auto simp: sendLogs_def getSequenceToken_def putLogEvents_def Let_def in_flight_def carried_def
        split: option.splits if_splits)

lemma sendLogs_quiet:
  assumes "quiet t" "writeQueued t"
  shows "single_flight (sendLogs t)" "content (sendLogs t) = content t"
proof -
  note sc = same_calls [OF sendLogs_fields(1,2), of t]
  from assms have p: "pending t = []" and r: "\<not> recovering t" by (simp_all add: quiet_def)
  show "single_flight (sendLogs t)"
    using assms sendLogs_pending [OF p]
    by (auto simp: single_flight_def quiet_def sc sendLogs_fields)
  show "content (sendLogs t) = content t"
    using sendLogs_pending(2) [OF p] r p
    by (simp add: content_def delivered_def sendLogs_fields sc awaiting_not_recovering in_flight_def)
qed


lemma nextAfterError_ignored: "onErrorNextCbId s \<noteq> i \<Longrightarrow> nextAfterError i a s = s"
  by (simp add: nextAfterError_def)

lemma nextAfterError_fields:
  "onErrorCalls (nextAfterError i a s) = onErrorCalls s"
  "onError (nextAfterError i a s) = onError s"
  "writeQueued (nextAfterError i a s) = writeQueued s"
  "onErrorNextCbId (nextAfterError i a s) = (if onErrorNextCbId s = i then i + 1 else onErrorNextCbId s)"
  "length (pending (nextAfterError i a s)) \<le> length (pending s) + 1"
  by (simp_all add: nextAfterError_def handleError_def clearQueue_def scheduleSendLogs_def Let_def
        split: next_arg.split)

lemma handed_out_nextAfterError: "handed_out (nextAfterError i a s) = handed_out s"
  by (simp add: handed_out_def nextAfterError_fields)

lemma not_recovering_after:
  assumes "\<forall>j \<in> set (handed_out s). j \<le> onErrorNextCbId s" "onErrorNextCbId s = i"
  shows "\<not> recovering (nextAfterError i a s)"
  using assms by (auto simp: recovering_def handed_out_nextAfterError nextAfterError_fields)

lemma nextAfterError_single_flight:
  assumes "single_flight s" "i \<in> set (handed_out s)"
  shows "single_flight (nextAfterError i a s)"
proof (cases "onErrorNextCbId s = i")
  case False
  then show ?thesis using assms by (simp add: nextAfterError_ignored)
next
  case True
  with assms have rec: "recovering s" by (simp add: recovering_def)
  with assms have p: "pending s = []" and w: "writeQueued s"
    and h: "\<forall>j \<in> set (handed_out s). j \<le> onErrorNextCbId s"
    by (auto simp: single_flight_def)
  have nr: "\<not> recovering (nextAfterError i a s)" by (rule not_recovering_after [OF h True])
  show ?thesis
    using nr h True w nextAfterError_fields(5) [of i a s] p
    by (auto simp: single_flight_def handed_out_nextAfterError nextAfterError_fields)
qed

lemma nextAfterError_EventsArg:
  "onErrorNextCbId s = i \<Longrightarrow>
   nextAfterError i (EventsArg evs) s =
     s\<lparr>onErrorNextCbId := i + 1, sequenceToken := None, queuedLogs := evs @ queuedLogs s,
       pending := pending s @ [Timer]\<rparr>"
  by (simp add: nextAfterError_def scheduleSendLogs_def Let_def)







lemma foldl_nextAfterError_single_flight:
  "single_flight s \<Longrightarrow> i \<in> set (handed_out s) \<Longrightarrow>
   single_flight (foldl (\<lambda>t a. nextAfterError i a t) s as)"
  by (induction as arbitrary: s)
     (simp_all add: nextAfterError_single_flight handed_out_nextAfterError)

lemma foldl_nextAfterError_onError:
  "onError (foldl (\<lambda>t a. nextAfterError i a t) s as) = onError s"
  by (induction as arbitrary: s) (simp_all add: nextAfterError_fields)

lemma callOnError_unfold:
  "callOnError err failed t =
     foldl (\<lambda>u a. nextAfterError (onErrorNextCbId t + 1) a u)
       (t\<lparr>onErrorNextCbId := onErrorNextCbId t + 1,
          onErrorCalls := onErrorCalls t @ [(err, failed, onErrorNextCbId t + 1)]\<rparr>)
       (onError t err failed)"
  by (simp add: callOnError_def Let_def)

lemma recovery_begins:
  fixes err :: error and failed :: "logEvent list option"
  assumes "quiet t" "writeQueued t"
  defines "s2 \<equiv> t\<lparr>onErrorNextCbId := onErrorNextCbId t + 1,
          onErrorCalls := onErrorCalls t @ [(err, failed, onErrorNextCbId t + 1)]\<rparr>"
  shows "single_flight s2" "onErrorNextCbId t + 1 \<in> set (handed_out s2)"
    "failed_of s2 = failed"
    "content s2 = delivered t @ (case failed of Some evs \<Rightarrow> evs | None \<Rightarrow> []) @ queuedLogs t"
proof -
  from assms(1) have h: "\<forall>i \<in> set (handed_out t). i \<le> onErrorNextCbId t"
    and p: "pending t = []" by (simp_all add: quiet_def)
  have ho: "handed_out s2 = handed_out t @ [onErrorNextCbId t + 1]"
    by (simp add: s2_def handed_out_def)
  show "onErrorNextCbId t + 1 \<in> set (handed_out s2)" by (simp add: ho)
  show "single_flight s2"
    using h p assms(2) unfolding single_flight_def recovering_def ho
    by (auto simp: s2_def)
  have "onErrorNextCbId t + 1 \<notin> fst ` set (calls_by_id t)"
    using h handed_out_calls_by_id [of t, symmetric] by auto
  then have "map_of (calls_by_id t) (onErrorNextCbId t + 1) = None"
    by (simp add: map_of_eq_None_iff)
  then show f: "failed_of s2 = failed"
    by (simp add: failed_of_def s2_def calls_by_id_def map_add_def)
  show "content s2 = delivered t @ (case failed of Some evs \<Rightarrow> evs | None \<Rightarrow> []) @ queuedLogs t"
    using p by (simp add: content_def awaiting_def f) (simp add: s2_def delivered_def in_flight_def)
qed

lemma callOnError_single_flight:
  assumes "quiet t" "writeQueued t"
  shows "single_flight (callOnError err failed t)"
  unfolding callOnError_unfold
  by (rule foldl_nextAfterError_single_flight [OF recovery_begins(1,2) [OF assms]])

lemma callOnError_onError: "onError (callOnError err failed t) = onError t"
  unfolding callOnError_unfold by (simp add: foldl_nextAfterError_onError)



lemma pending_single:
  assumes "single_flight s" "c \<in> set (pending s)"
  shows "pending s = [c]" "\<not> recovering s" "writeQueued s"
    "\<forall>i \<in> set (handed_out s). i \<le> onErrorNextCbId s"
proof -
  from assms(2) have ne: "pending s \<noteq> []" by auto
  from assms(1) have l: "length (pending s) + (if recovering s then 1 else 0) \<le> 1"
    by (simp add: single_flight_def)
  from ne l show "\<not> recovering s" by (cases "pending s") (auto split: if_splits)
  from ne l have "length (pending s) = 1" by (cases "pending s") (auto split: if_splits)
  with assms(2) show "pending s = [c]" by (cases "pending s") auto
  from assms(1) ne show "writeQueued s" by (auto simp: single_flight_def)
  from assms(1) show "\<forall>i \<in> set (handed_out s). i \<le> onErrorNextCbId s"
    by (simp add: single_flight_def)
qed

lemma first_put_mem: "first_put cs = Some (tok, evs) \<Longrightarrow> PutCb tok evs \<in> set cs"
  by (induction cs rule: first_put.induct) auto

lemma write_impl_single_flight:
  assumes "single_flight s" "write_impl bi now r s = Inr s'"
  shows "single_flight s'" "onError s' = onError s"
    "content s' = content s @ enqueued_by bi (Write r now) s"
proof -
  show "onError s' = onError s"
    using assms(2)
    by (auto simp: write_impl_def scheduleSendLogs_def Let_def split: if_splits sum.splits)
  have f: "onErrorCalls s' = onErrorCalls s" "onErrorNextCbId s' = onErrorNextCbId s"
    using assms(2)
    by (auto simp: write_impl_def scheduleSendLogs_def Let_def split: if_splits sum.splits)
  note sc = same_calls [OF f]
  show "single_flight s'"
    using assms unfolding single_flight_def sc
    by (auto simp: write_impl_def scheduleSendLogs_def Let_def split: if_splits sum.splits)
  show "content s' = content s @ enqueued_by bi (Write r now) s"
    using assms(2) unfolding content_def sc
    by (auto simp: write_impl_def scheduleSendLogs_def Let_def enqueued_by_def delivered_def
          in_flight_def carried_def split: if_splits sum.splits)
qed


lemma quiet_cleared:
  assumes "single_flight s" "c \<in> set (pending s)"
  shows "quiet (s\<lparr>pending := remove1 c (pending s)\<rparr>)"
  using pending_single [OF assms]
  by (simp add: quiet_def recovering_def handed_out_def)

lemma sendLogs_tokenCb_single_flight:
  assumes "quiet t" "writeQueued t"
  shows "single_flight (sendLogs_tokenCb res t)" "onError (sendLogs_tokenCb res t) = onError t"
proof -
  have q: "quiet (t\<lparr>sequenceToken := Some tok\<rparr>)" for tok
    using assms(1) by (simp add: quiet_def recovering_def handed_out_def)
  show "single_flight (sendLogs_tokenCb res t)"
    using callOnError_single_flight [OF assms] sendLogs_quiet(1) [OF q] assms(2)
    by (cases res) (simp_all add: sendLogs_tokenCb_def)
  show "onError (sendLogs_tokenCb res t) = onError t"
    by (cases res) (simp_all add: sendLogs_tokenCb_def callOnError_onError sendLogs_fields)
qed


lemma sendLogs_putCb_single_flight:
  assumes "quiet t" "writeQueued t"
  shows "single_flight (sendLogs_putCb evs res t)" "onError (sendLogs_putCb evs res t) = onError t"
proof -
  show "single_flight (sendLogs_putCb evs res t)"
  proof (cases res)
    case (Inl err)
    then show ?thesis using callOnError_single_flight [OF assms] by (simp add: sendLogs_putCb_def)
  next
    case (Inr tok)
    then show ?thesis using assms
      by (auto simp: sendLogs_putCb_def Let_def scheduleSendLogs_def single_flight_def quiet_def
            recovering_def handed_out_def)
  qed
  show "onError (sendLogs_putCb evs res t) = onError t"
    by (cases res) (simp_all add: sendLogs_putCb_def callOnError_onError Let_def scheduleSendLogs_def)
qed



lemma step_single_flight:
  assumes "single_flight s" "step bi e s = Some s'"
  shows "single_flight s' \<and> onError s' = onError s"
proof (cases e)
  case (Write r now)
  with assms show ?thesis
    by (cases "write_impl bi now r s") (auto simp: step_def write_impl_single_flight)
next
  case Fire
  with assms(2) have m: "Timer \<in> set (pending s)"
    and s': "s' = sendLogs (s\<lparr>pending := remove1 Timer (pending s)\<rparr>)"
    by (auto simp: step_def split: if_splits)
  from quiet_cleared [OF assms(1) m] pending_single(3) [OF assms(1) m]
  show ?thesis unfolding s' by (simp add: sendLogs_quiet(1) sendLogs_fields)
next
  case (TokenDone res)
  with assms(2) have m: "TokenCb \<in> set (pending s)"
    and s': "s' = sendLogs_tokenCb res (s\<lparr>pending := remove1 TokenCb (pending s)\<rparr>)"
    by (auto simp: step_def split: if_splits)
  from quiet_cleared [OF assms(1) m] pending_single(3) [OF assms(1) m]
  show ?thesis unfolding s' by (simp add: sendLogs_tokenCb_single_flight)
next
  case (PutDone answers)
  with assms(2) obtain tok evs res n where fp: "first_put (pending s) = Some (tok, evs)"
    and s': "s' = sendLogs_putCb evs res
                (s\<lparr>pending := remove1 (PutCb tok evs) (pending s),
                   requests := requests s @ replicate (n - 1) (PutLogEvents tok evs)\<rparr>)"
    by (auto simp: step_def split: option.splits if_splits)
  note m = first_put_mem [OF fp]
  from quiet_cleared [OF assms(1) m]
  have q: "quiet (s\<lparr>pending := remove1 (PutCb tok evs) (pending s),
                   requests := requests s @ replicate (n - 1) (PutLogEvents tok evs)\<rparr>)"
    by (simp add: quiet_def recovering_def handed_out_def)
  from q pending_single(3) [OF assms(1) m]
  show ?thesis unfolding s' by (simp add: sendLogs_putCb_single_flight)
next
  case (Next i a)
  with assms(2) have m: "i \<in> set (handed_out s)" and s': "s' = nextAfterError i a s"
    by (auto simp: step_def split: if_splits)
  show ?thesis unfolding s'
    by (simp add: nextAfterError_single_flight [OF assms(1) m] nextAfterError_fields)
qed


lemma run_single_flight:
  "single_flight s \<Longrightarrow> run bi es s = Some s' \<Longrightarrow> single_flight s' \<and> onError s' = onError s"
proof (induction es arbitrary: s)
  case Nil
  then show ?case by simp
next
  case (Cons e es)
  from Cons.prems(2) obtain s1 where s1: "step bi e s = Some s1" and r: "run bi es s1 = Some s'"
    by (auto split: option.splits)
  from step_single_flight [OF Cons.prems(1) s1] Cons.IH [OF _ r]
  show ?case by simp
qed


lemma CWLogsWritable_initial:
  assumes "CWLogsWritable f h options = Inr s"
  shows "single_flight s" "content s = []" "onErrorNextCbId s = 1" "handed_out s = []" "pending s = []"
  using assms
  by (cases "validateOptions options";
      auto simp: CWLogsWritable_def single_flight_def recovering_def handed_out_def content_def
        delivered_def in_flight_def awaiting_def failed_of_def calls_by_id_def)+

lemma constructed_run_single_flight:
  assumes "CWLogsWritable f h options = Inr s0" and "run bi es s0 = Some s"
  shows "single_flight s"
  using run_single_flight [OF CWLogsWritable_initial(1) [OF assms(1)] assms(2)] by simp

section \<open>Fail-stop, the callback id, resumption, and the cycle\<close>





lemma foldl_nextAfterError_counter:
  "onErrorNextCbId s \<le> onErrorNextCbId (foldl (\<lambda>t a. nextAfterError i a t) s as)"
proof (induction as arbitrary: s)
  case Nil
  show ?case by simp
next
  case (Cons a as)
  have "onErrorNextCbId s \<le> onErrorNextCbId (nextAfterError i a s)"
    by (simp add: nextAfterError_fields)
  with Cons [of "nextAfterError i a s"] show ?case by simp
qed

lemma callOnError_counter:
  "onErrorNextCbId s < onErrorNextCbId (callOnError err failed s)"
  unfolding callOnError_unfold
  using foldl_nextAfterError_counter [of "s\<lparr>onErrorNextCbId := onErrorNextCbId s + 1,
          onErrorCalls := onErrorCalls s @ [(err, failed, onErrorNextCbId s + 1)]\<rparr>"
          "onErrorNextCbId s + 1" "onError s err failed"]
  by simp

lemma step_counter:
  assumes "step bi e s = Some s'"
  shows "onErrorNextCbId s \<le> onErrorNextCbId s'"
proof (cases e)
  case (Write r now)
  with assms show ?thesis
    by (auto simp: step_def write_impl_def scheduleSendLogs_def Let_def split: sum.splits if_splits)
next
  case Fire
  with assms show ?thesis by (auto simp: step_def sendLogs_fields split: if_splits)
next
  case (TokenDone res)
  with assms show ?thesis
    using callOnError_counter [of "s\<lparr>pending := remove1 TokenCb (pending s)\<rparr>"]
    by (cases res)
       (auto simp: step_def sendLogs_tokenCb_def sendLogs_fields less_imp_le split: if_splits)
next
  case (PutDone answers)
  with assms obtain tok evs res n where
    s': "s' = sendLogs_putCb evs res
                (s\<lparr>pending := remove1 (PutCb tok evs) (pending s),
                   requests := requests s @ replicate (n - 1) (PutLogEvents tok evs)\<rparr>)"
    by (auto simp: step_def split: option.splits if_splits)
  show ?thesis unfolding s'
    using callOnError_counter [of "s\<lparr>pending := remove1 (PutCb tok evs) (pending s),
                   requests := requests s @ replicate (n - 1) (PutLogEvents tok evs)\<rparr>"]
    by (cases res)
       (auto simp: sendLogs_putCb_def scheduleSendLogs_def Let_def less_imp_le)
next
  case (Next i a)
  with assms show ?thesis by (auto simp: step_def nextAfterError_fields split: if_splits)
qed

lemma run_counter:
  "run bi es s = Some s' \<Longrightarrow> onErrorNextCbId s \<le> onErrorNextCbId s'"
proof (induction es arbitrary: s)
  case Nil
  then show ?case by simp
next
  case (Cons e es)
  from Cons.prems obtain s1 where s1: "step bi e s = Some s1" and r: "run bi es s1 = Some s'"
    by (auto split: option.splits)
  from step_counter [OF s1] Cons.IH [OF r] show ?case by simp
qed

text \<open>
  Claim C5. A callback \<^verbatim>\<open>next\<close> that was handed out is called; then, after any run, every
  further call of the same callback leaves the state as it is. A call whose id is not the
  current \<^verbatim>\<open>_onErrorNextCbId\<close> leaves the state as it is. Each failure (each call of
  \<^verbatim>\<open>onError\<close>) increments the counter and hands out the new value as the id of its callback.
\<close>

theorem resume_honoured_once:
  assumes "single_flight s" and "cbId \<in> set (handed_out s)"
    and "run bi es (nextAfterError cbId a s) = Some s'"
  shows "nextAfterError cbId a' s' = s'
       \<and> (onErrorNextCbId s \<noteq> cbId \<longrightarrow> nextAfterError cbId a s = s)
       \<and> onErrorNextCbId s < onErrorNextCbId (callOnError err failed s)
       \<and> handed_out (callOnError err failed s) = handed_out s @ [onErrorNextCbId s + 1]"
proof -
  from assms(1,2) have le: "cbId \<le> onErrorNextCbId s" by (simp add: single_flight_def)
  then have "cbId < onErrorNextCbId (nextAfterError cbId a s)"
    by (simp add: nextAfterError_fields)
  with run_counter [OF assms(3)] have "onErrorNextCbId s' \<noteq> cbId" by simp
  then have 1: "nextAfterError cbId a' s' = s'" by (rule nextAfterError_ignored)
  have 4: "handed_out (callOnError err failed s) = handed_out s @ [onErrorNextCbId s + 1]"
    by (simp add: handed_out_def onErrorCalls_callOnError)
  from 1 4 callOnError_counter [of s err failed] show ?thesis
    by (simp add: nextAfterError_ignored)
qed

text \<open>
  Claim C8. When the current callback is called with an array of log events, the queue
  becomes those events, in their order, followed by what was queued; the sequence token is
  \<^verbatim>\<open>null\<close>; a \<^verbatim>\<open>_sendLogs\<close> is scheduled, and when it runs it asks for the sequence token
  (a \<^verbatim>\<open>describeLogStreams\<close> request, its callback pending) and sends nothing before.
\<close>

theorem resume_with_events:
  assumes "onErrorNextCbId s = cbId"
  shows "queuedLogs (nextAfterError cbId (EventsArg evs) s) = evs @ queuedLogs s
       \<and> sequenceToken (nextAfterError cbId (EventsArg evs) s) = None
       \<and> pending (nextAfterError cbId (EventsArg evs) s) = pending s @ [Timer]
       \<and> sendLogs (nextAfterError cbId (EventsArg evs) s)
           = getSequenceToken (nextAfterError cbId (EventsArg evs) s)
       \<and> requests (sendLogs (nextAfterError cbId (EventsArg evs) s))
           = requests s @ [DescribeLogStreams]
       \<and> queuedLogs (sendLogs (nextAfterError cbId (EventsArg evs) s)) = evs @ queuedLogs s
       \<and> (pending s = [] \<longrightarrow>
            map_option pending (step bi Fire (nextAfterError cbId (EventsArg evs) s)) = Some [TokenCb])"
  by (simp add: nextAfterError_EventsArg [OF assms] sendLogs_def getSequenceToken_def step_def)

text \<open>
  Claim C6, amended. \<^verbatim>\<open>_sendLogs\<close> with a \<^verbatim>\<open>null\<close> token asks for the token first,
  whether the queue is empty or not; with a token and an empty queue it clears
  \<^verbatim>\<open>writeQueued\<close> and makes no request; with a token and a non-empty queue its one
  request is the \<^verbatim>\<open>putLogEvents\<close> of the planned prefix. When the token arrives and the
  queue is empty, \<^verbatim>\<open>writeQueued\<close> is cleared and nothing is sent.
\<close>

theorem sendLogs_token_before_queue:
  "(sequenceToken s = None \<longrightarrow>
      sendLogs s = s\<lparr>requests := requests s @ [DescribeLogStreams], pending := pending s @ [TokenCb]\<rparr>)
   \<and> (sequenceToken s \<noteq> None \<and> queuedLogs s = [] \<longrightarrow> sendLogs s = s\<lparr>writeQueued := False\<rparr>)
   \<and> (sequenceToken s = Some t \<and> queuedLogs s \<noteq> [] \<longrightarrow>
        requests (sendLogs s)
          = requests s @ [PutLogEvents t (take (nextLogBatchSize s (queuedLogs s)) (queuedLogs s))])
   \<and> (queuedLogs s = [] \<longrightarrow>
        sendLogs_tokenCb (Inr tok) s = s\<lparr>sequenceToken := Some tok, writeQueued := False\<rparr>)"
  by (auto simp: sendLogs_def getSequenceToken_def putLogEvents_def sendLogs_tokenCb_def Let_def)

section \<open>The definitions on concrete runs\<close>

lemma CWLogsWritable_options_hook:
  "CWLogsWritable f later_hook options_hook = Inr stream_later"
  by (simp add: CWLogsWritable_def validateOptions_def options_hook_def stream_later_def stream0_def)

lemma plan_one: "nextLogBatchSize (s\<lparr>maxBatchCount := Fin 10000, maxBatchSize := Fin 1048576, getMessageSize := getMessageSize_default\<rparr>) [ev_msg ''a''] = 1"
  by (simp add: nextLogBatchSize_def nextLogBatchSize_loop.simps Let_def getMessageSize_default_def js_of_nat_def num_le_def ev_msg_def)

lemma run_trace_a: "run builtins0 trace_a stream_later = Some recovering_a"
  by (simp add: trace_a_def stream_later_def stream0_def recovering_a_def step_def write_impl_def
        createLogEvent_def builtins0_def filterWrite_default_def scheduleSendLogs_def sendLogs_def
        getSequenceToken_def putLogEvents_def sendLogs_tokenCb_def sendLogs_putCb_def
        callOnError_def later_hook_def fatal_error_def Let_def js_of_nat_def
        nextLogBatchSize_def nextLogBatchSize_loop.simps getMessageSize_default_def num_le_def
        ev_msg_def)


lemmas eval_defs =
  stream_later_def stream0_def recovering_a_def step_def write_impl_def
  createLogEvent_def builtins0_def filterWrite_default_def scheduleSendLogs_def sendLogs_def
  getSequenceToken_def putLogEvents_def sendLogs_tokenCb_def sendLogs_putCb_def
  callOnError_def later_hook_def fatal_error_def Let_def js_of_nat_def
  nextLogBatchSize_def nextLogBatchSize_loop.simps getMessageSize_default_def num_le_def
  ev_msg_def nextAfterError_def handed_out_def handleError_def clearQueue_def

lemma run_append:
  "run bi (xs @ ys) s = (case run bi xs s of None \<Rightarrow> None | Some s' \<Rightarrow> run bi ys s')"
  by (induction xs arbitrary: s) (auto split: option.splits)


lemma run_trace_c: "run builtins0 trace_c stream_later = Some idle_null"
  unfolding trace_c_def run_append run_trace_a
  by (simp add: idle_null_def eval_defs)







text \<open>
  Claim C6 as stated fails when the token is \<^verbatim>\<open>null\<close>: after \<open>trace_c\<close> a
  \<^verbatim>\<open>_sendLogs\<close> is scheduled, the queue is empty and the token is \<^verbatim>\<open>null\<close>; when it runs,
  a \<^verbatim>\<open>describeLogStreams\<close> request is made and \<^verbatim>\<open>writeQueued\<close> stays set.
\<close>

theorem empty_queue_token_query_counterexample:
  "run builtins0 trace_c stream_later = Some idle_null
   \<and> queuedLogs idle_null = [] \<and> sequenceToken idle_null = None
   \<and> step builtins0 Fire idle_null = Some asking_token
   \<and> requests asking_token = requests idle_null @ [DescribeLogStreams]
   \<and> writeQueued asking_token"
  using run_trace_c
  by (simp add: idle_null_def asking_token_def eval_defs)

theorem sendLogs_token_before_queue_witness:
  "sequenceToken idle_null = None \<and> sendLogs idle_null = getSequenceToken idle_null
   \<and> sequenceToken recovering_a \<noteq> None \<and> queuedLogs recovering_a = []
   \<and> sendLogs recovering_a = recovering_a\<lparr>writeQueued := False\<rparr>
   \<and> requests (sendLogs (recovering_a\<lparr>queuedLogs := [ev_msg ''b'']\<rparr>))
       = requests recovering_a @ [PutLogEvents (Token ''t1'') [ev_msg ''b'']]
   \<and> sendLogs_tokenCb (Inr (Token ''t2'')) idle_null
       = idle_null\<lparr>sequenceToken := Some (Token ''t2''), writeQueued := False\<rparr>"
proof -
  have a: "sequenceToken idle_null = None" "queuedLogs idle_null = []"
    and b: "sequenceToken recovering_a = Some (Token ''t1'')" "queuedLogs recovering_a = []"
    by (simp_all add: idle_null_def recovering_a_def stream_later_def stream0_def)
  let ?r = "recovering_a\<lparr>queuedLogs := [ev_msg ''b'']\<rparr>"
  have c: "sequenceToken ?r = Some (Token ''t1'')" "queuedLogs ?r \<noteq> []"
    "take (nextLogBatchSize ?r (queuedLogs ?r)) (queuedLogs ?r) = [ev_msg ''b'']"
    "requests ?r = requests recovering_a"
    by (simp_all add: eval_defs)
  from sendLogs_token_before_queue [of idle_null _ "Token ''t2''"]
    sendLogs_token_before_queue [of recovering_a "Token ''t1''"]
    sendLogs_token_before_queue [of ?r "Token ''t1''"]
  show ?thesis
    unfolding c(3) using a b c(1,2,4) by (simp add: getSequenceToken_def)
qed

lemma single_flight_recovering_a: "single_flight recovering_a"
  using run_single_flight [OF CWLogsWritable_initial(1) [OF CWLogsWritable_options_hook] run_trace_a]
  by simp


theorem resume_honoured_once_witness:
  "single_flight recovering_a \<and> 2 \<in> set (handed_out recovering_a)
   \<and> run builtins0 [Fire] (nextAfterError 2 NoArg recovering_a) = Some asking_token
   \<and> nextAfterError 2 (EventsArg [ev_msg ''a'']) asking_token = asking_token
   \<and> onErrorNextCbId (callOnError fatal_error None recovering_a) = 3
   \<and> handed_out (callOnError fatal_error None recovering_a) = [2, 3]"
proof -
  have h: "2 \<in> set (handed_out recovering_a)" and c: "onErrorNextCbId recovering_a = 2"
    and ho: "handed_out recovering_a = [2]"
    by (simp_all add: eval_defs)
  have r: "run builtins0 [Fire] (nextAfterError 2 NoArg recovering_a) = Some asking_token"
    by (simp add: asking_token_def idle_null_def eval_defs)
  have k: "onErrorNextCbId (callOnError fatal_error None recovering_a) = 3"
    by (simp add: eval_defs)
  from resume_honoured_once [OF single_flight_recovering_a h r, of "EventsArg [ev_msg ''a'']" fatal_error None]
  show ?thesis using single_flight_recovering_a h r k by (simp add: c ho)
qed

theorem resume_with_events_witness:
  "onErrorNextCbId recovering_a = 2 \<and> pending recovering_a = []
   \<and> queuedLogs (nextAfterError 2 (EventsArg [ev_msg ''a'']) (recovering_a\<lparr>queuedLogs := [ev_msg ''b'']\<rparr>))
       = [ev_msg ''a'', ev_msg ''b'']
   \<and> map_option pending (step builtins0 Fire (nextAfterError 2 (EventsArg [ev_msg ''a''])
         (recovering_a\<lparr>queuedLogs := [ev_msg ''b'']\<rparr>))) = Some [TokenCb]"
proof -
  let ?r = "recovering_a\<lparr>queuedLogs := [ev_msg ''b'']\<rparr>"
  have c: "onErrorNextCbId ?r = 2" "pending ?r = []" "queuedLogs ?r = [ev_msg ''b'']"
    "onErrorNextCbId recovering_a = 2" "pending recovering_a = []"
    by (simp_all add: recovering_a_def stream_later_def stream0_def)
  from resume_with_events [OF c(1), of "[ev_msg ''a'']" builtins0]
  show ?thesis using c by simp
qed

section \<open>Cases of the repository's test suite\<close>

text \<open>
  The batch size with \<^verbatim>\<open>maxBatchCount: 10\<close> and fifteen queued events; the number of
  requests with \<^verbatim>\<open>retryableMax: 5\<close> when every answer is a retryable error; events
  returned to the head of the queue; a callback whose id does not match.
\<close>

lemma test_maxBatchCount_option:
  "nextLogBatchSize (stream0\<lparr>maxBatchCount := Fin 10\<rparr>) [ev_msg ''---'', ev_msg ''---'', ev_msg ''---'', ev_msg ''---'', ev_msg ''---'', ev_msg ''---'', ev_msg ''---'', ev_msg ''---'', ev_msg ''---'', ev_msg ''---'', ev_msg ''---'', ev_msg ''---'', ev_msg ''---'', ev_msg ''---'', ev_msg ''---''] = 10"
  by (simp add: nextLogBatchSize_def nextLogBatchSize_loop.simps stream0_def ev_msg_def
        getMessageSize_default_def js_of_nat_def num_le_def Let_def)

lemma test_retry_up_to_retryableMax:
  "attemptPut (Fin 5) 0 [Inl retryable_error, Inl retryable_error, Inl retryable_error, Inl retryable_error, Inl retryable_error, Inl retryable_error] = Some (Inl retryable_error, 6)"
  by (simp add: retryable_error_def js_of_nat_def)

lemma test_events_to_head_of_queue:
  "queuedLogs (nextAfterError 2 (EventsArg [ev_msg ''B'', ev_msg ''C''])
      (stream0\<lparr>onErrorNextCbId := 2, queuedLogs := [ev_msg ''A'']\<rparr>))
   = [ev_msg ''B'', ev_msg ''C'', ev_msg ''A'']"
  by (simp add: nextAfterError_def scheduleSendLogs_def Let_def stream0_def)

lemma test_abort_if_id_does_not_match:
  "nextAfterError (onErrorNextCbId s + 1) a s = s"
  by (simp add: nextAfterError_def)

end
